theory Spec2Isabelle
  imports Main "HOL-Library.AList"
begin

section \<open>Strings and numbers of the scripts\<close>

text \<open>
  A JavaScript string is modelled as a \<^typ>\<open>string\<close>: one \<^typ>\<open>char\<close> per code unit,
  for code units below 256 (the Latin-1 range). The seven HTTP method names, the
  identifiers and the patterns of the scripts are ASCII.
\<close>

text \<open>
  The letters of the Latin-1 range beyond ASCII that have a lower and an upper case in
  the range: \<open>0xE0\<close> to \<open>0xFE\<close> without the division sign \<open>0xF7\<close>, and \<open>0xC0\<close> to \<open>0xDE\<close>
  without the multiplication sign \<open>0xD7\<close>.
\<close>

definition latin1Lower :: string where
  "latin1Lower =
     [CHR 0xE0, CHR 0xE1, CHR 0xE2, CHR 0xE3, CHR 0xE4, CHR 0xE5, CHR 0xE6, CHR 0xE7,
      CHR 0xE8, CHR 0xE9, CHR 0xEA, CHR 0xEB, CHR 0xEC, CHR 0xED, CHR 0xEE, CHR 0xEF,
      CHR 0xF0, CHR 0xF1, CHR 0xF2, CHR 0xF3, CHR 0xF4, CHR 0xF5, CHR 0xF6, CHR 0xF8,
      CHR 0xF9, CHR 0xFA, CHR 0xFB, CHR 0xFC, CHR 0xFD, CHR 0xFE]"

definition latin1Upper :: string where
  "latin1Upper =
     [CHR 0xC0, CHR 0xC1, CHR 0xC2, CHR 0xC3, CHR 0xC4, CHR 0xC5, CHR 0xC6, CHR 0xC7,
      CHR 0xC8, CHR 0xC9, CHR 0xCA, CHR 0xCB, CHR 0xCC, CHR 0xCD, CHR 0xCE, CHR 0xCF,
      CHR 0xD0, CHR 0xD1, CHR 0xD2, CHR 0xD3, CHR 0xD4, CHR 0xD5, CHR 0xD6, CHR 0xD8,
      CHR 0xD9, CHR 0xDA, CHR 0xDB, CHR 0xDC, CHR 0xDD, CHR 0xDE]"

text \<open>
  \<open>s.toLowerCase()\<close>, one code unit at a time: the ASCII capitals and the Latin-1
  capitals go to their small letters, every other code unit below 256 stays.
\<close>

definition toLowerCaseChar :: "char \<Rightarrow> char" where
  "toLowerCaseChar c =
     (case map_of (zip (''ABCDEFGHIJKLMNOPQRSTUVWXYZ'' @ latin1Upper)
                       (''abcdefghijklmnopqrstuvwxyz'' @ latin1Lower)) c of
        Some d \<Rightarrow> d | None \<Rightarrow> c)"

definition toLowerCase :: "string \<Rightarrow> string" where
  "toLowerCase s = map toLowerCaseChar s"

text \<open>
  \<open>s.toUpperCase()\<close>, one code unit at a time: the small ASCII and Latin-1 letters go to
  their capitals and the sharp s \<open>0xDF\<close> to the two letters \<open>SS\<close>. The upper-case forms of
  the micro sign \<open>0xB5\<close> and of the y with diaeresis \<open>0xFF\<close> are code units beyond 255,
  which no \<^typ>\<open>char\<close> holds: the strings without these two are marked off by
  \<open>upperCaseInRange\<close>, and what follows says nothing on the upper case of the others.
\<close>

definition toUpperCaseChar :: "char \<Rightarrow> string" where
  "toUpperCaseChar c =
     (if c = CHR 0xDF then ''SS''
      else (case map_of (zip (''abcdefghijklmnopqrstuvwxyz'' @ latin1Lower)
                             (''ABCDEFGHIJKLMNOPQRSTUVWXYZ'' @ latin1Upper)) c of
              Some d \<Rightarrow> [d] | None \<Rightarrow> [c]))"

definition toUpperCase :: "string \<Rightarrow> string" where
  "toUpperCase s = concat (map toUpperCaseChar s)"

definition upperCaseInRange :: "string \<Rightarrow> bool" where
  "upperCaseInRange s = (CHR 0xB5 \<notin> set s \<and> CHR 0xFF \<notin> set s)"

text \<open>\<open>s.startsWith(p)\<close>.\<close>

fun startsWith :: "string \<Rightarrow> string \<Rightarrow> bool" where
  "startsWith s [] = True"
| "startsWith [] (p # ps) = False"
| "startsWith (c # cs) (p # ps) = (c = p \<and> startsWith cs ps)"

text \<open>\<open>s.endsWith(p)\<close>.\<close>

definition endsWith :: "string \<Rightarrow> string \<Rightarrow> bool" where
  "endsWith s p = startsWith (rev s) (rev p)"

text \<open>\<open>xs.join(sep)\<close> on an array of strings.\<close>

fun join :: "string \<Rightarrow> string list \<Rightarrow> string" where
  "join sep [] = []"
| "join sep [x] = x"
| "join sep (x # y # ys) = x @ sep @ join sep (y # ys)"

text \<open>
  \<open>s.split(c)\<close> for a one-character separator: the pieces between the separators,
  empty pieces included; the empty string splits into one empty piece.
\<close>

fun split :: "char \<Rightarrow> string \<Rightarrow> string list" where
  "split sep [] = [[]]"
| "split sep (c # cs) =
     (if c = sep then [] # split sep cs
      else (case split sep cs of
              [] \<Rightarrow> [[c]]
            | p # ps \<Rightarrow> (c # p) # ps))"

text \<open>
  Decimal notation of a natural number (an array index) and of an integer. The numbers
  of the query builder are integers that a double holds exactly and that \<open>String(n)\<close>
  prints in plain decimal notation.
\<close>

function showNat :: "nat \<Rightarrow> string" where
  "showNat n =
     (if n < 10 then [''0123456789'' ! n]
      else showNat (n div 10) @ [''0123456789'' ! (n mod 10)])"
  by pat_completeness auto
termination
  by (relation "measure id") auto

declare showNat.simps [simp del]

definition showInt :: "int \<Rightarrow> string" where
  "showInt i = (if i < 0 then CHR ''-'' # showNat (nat (- i)) else showNat (nat i))"

text \<open>
  What a script throws: an \<open>Error\<close> with its message (\<open>new Error(message)\<close>, or an error
  of the file system), or a \<open>TypeError\<close> or \<open>SyntaxError\<close> of the runtime.
\<close>

datatype exn = Error string | TypeError | SyntaxError

section \<open>The query builder (\<open>QueryBuilder\<close>)\<close>

text \<open>
  A filter value is a \<open>string | number | boolean | string[]\<close>. The operator of a filter is
  whatever the caller passed as second argument (the cast to \<open>FilterOperator\<close> checks
  nothing at run time), so it has the same type.
\<close>

datatype qarg = AStr string | ANum int | ABool bool | AList "string list"

text \<open>\<open>String(value)\<close>; an array prints as its elements joined by commas.\<close>

fun String_qarg :: "qarg \<Rightarrow> string" where
  "String_qarg (AStr s) = s"
| "String_qarg (ANum n) = showInt n"
| "String_qarg (ABool b) = (if b then ''true'' else ''false'')"
| "String_qarg (AList xs) = join '','' xs"

record FilterOptions =
  fo_operator :: qarg
  fo_value :: qarg

text \<open>A value of \<open>QueryParams\<close>: \<open>string | number\<close>.\<close>

datatype qparam = PStr string | PNum int

text \<open>
  The builder's fields. \<open>params\<close> is an object and \<open>filters\<close> a \<open>Map\<close>: both are association
  lists in insertion order with one entry per key, and storing under a key replaces the
  entry in place or appends a new one (\<^const>\<open>AList.update\<close>). An unset \<open>sortField\<close> is
  \<^const>\<open>None\<close>.
\<close>

record QueryBuilder =
  params :: "(string \<times> qparam) list"
  filters :: "(string \<times> FilterOptions) list"
  sortField :: "string option"
  sortOrder :: string

definition new_QueryBuilder :: QueryBuilder where
  "new_QueryBuilder = \<lparr> params = [], filters = [], sortField = None, sortOrder = ''asc'' \<rparr>"

definition isOperator :: "string \<Rightarrow> bool" where
  "isOperator v = (v \<in> set
     [''eq'', ''ne'', ''gt'', ''gte'', ''lt'', ''lte'', ''in'', ''contains'', ''notContains'',
      ''beginsWith'', ''endsWith'', ''exists''])"

text \<open>
  \<open>filter(field, operatorOrValue, value?)\<close>; the third argument is \<^const>\<open>None\<close> when it is
  omitted (or \<open>undefined\<close>).
\<close>

definition filter_qb :: "string \<Rightarrow> qarg \<Rightarrow> qarg option \<Rightarrow> QueryBuilder \<Rightarrow> exn + QueryBuilder" where
  "filter_qb field operatorOrValue v qb =
     (case v of
        None \<Rightarrow>
          (case operatorOrValue of
             AStr s \<Rightarrow>
               if isOperator s then Inl (Error ''Filter operator requires a value'')
               else Inr (qb\<lparr>filters := AList.update field
                      \<lparr>fo_operator = AStr ''eq'', fo_value = operatorOrValue\<rparr> (filters qb)\<rparr>)
           | _ \<Rightarrow>
               Inr (qb\<lparr>filters := AList.update field
                      \<lparr>fo_operator = AStr ''eq'', fo_value = operatorOrValue\<rparr> (filters qb)\<rparr>))
      | Some filterValue \<Rightarrow>
          Inr (qb\<lparr>filters := AList.update field
                 \<lparr>fo_operator = operatorOrValue, fo_value = filterValue\<rparr> (filters qb)\<rparr>))"

text \<open>\<open>sort(field, order = 'asc')\<close>.\<close>

definition sort_qb :: "string \<Rightarrow> string \<Rightarrow> QueryBuilder \<Rightarrow> exn + QueryBuilder" where
  "sort_qb field order' qb = Inr (qb\<lparr>sortField := Some field, sortOrder := order'\<rparr>)"

text \<open>\<open>page(page)\<close>: a number is stored as its decimal notation, a string as it is.\<close>

definition page :: "qparam \<Rightarrow> QueryBuilder \<Rightarrow> exn + QueryBuilder" where
  "page p qb =
     Inr (qb\<lparr>params := AList.update ''page''
            (case p of PStr s \<Rightarrow> PStr s | PNum n \<Rightarrow> PStr (showInt n)) (params qb)\<rparr>)"

definition size_qb :: "int \<Rightarrow> QueryBuilder \<Rightarrow> exn + QueryBuilder" where
  "size_qb n qb =
     (if n < 1 then Inl (Error ''Page size must be at least 1'')
      else if n > 100 then Inl (Error ''Page size cannot exceed 100'')
      else Inr (qb\<lparr>params := AList.update ''size'' (PNum n) (params qb)\<rparr>))"

text \<open>One step of the loop of \<open>build\<close> over \<open>this.filters.entries()\<close>.\<close>

definition addFilter :: "(string \<times> qparam) list \<Rightarrow> string \<times> FilterOptions \<Rightarrow> (string \<times> qparam) list" where
  "addFilter result' e =
     (let field = fst e; operator = fo_operator (snd e); v = fo_value (snd e) in
      if operator = AStr ''eq'' then AList.update field (PStr (String_qarg v)) result'
      else if operator = AStr ''exists'' then
        AList.update (field @ ''[exists]'') (PStr (String_qarg v)) result'
      else
        AList.update (field @ ''['' @ String_qarg operator @ '']'')
          (PStr (case v of AList xs \<Rightarrow> join '','' xs | _ \<Rightarrow> String_qarg v)) result')"

definition build :: "QueryBuilder \<Rightarrow> (string \<times> qparam) list" where
  "build qb =
     (let result' = foldl addFilter (params qb) (filters qb) in
      case sortField qb of
        None \<Rightarrow> result'
      | Some f \<Rightarrow>
          if f = [] then result'
          else AList.update ''sort''
                 (PStr (if sortOrder qb = ''desc'' then CHR ''-'' # f else f)) result')"

text \<open>A chain \<open>a.m(...)\<close>: the next call runs unless the previous one threw.\<close>

definition andThen :: "exn + 'a \<Rightarrow> ('a \<Rightarrow> exn + 'b) \<Rightarrow> exn + 'b" where
  "andThen r f = (case r of Inl e \<Rightarrow> Inl e | Inr x \<Rightarrow> f x)"

section \<open>JavaScript values\<close>

text \<open>
  The values that the scripts and the error mapper handle: \<open>undefined\<close>, \<open>null\<close>, a
  boolean, a number, a string, an array, or an object. An object is a plain object: the
  list of its own properties in enumeration order, one entry per name, with
  \<open>Object.prototype\<close> as its prototype. An array has its elements and, as every JavaScript
  array can, named properties of its own beside them; \<open>JSON.parse\<close> returns arrays
  without named properties and no \<open>undefined\<close>. Functions and getters are not modelled,
  so no property of a value is callable.

  A number is held as the text that \<open>Number.prototype.toString\<close> gives it: the shortest
  decimal notation that reads back as the same double, in exponent notation from
  \<open>1e+21\<close> on, and \<open>Infinity\<close>, \<open>-Infinity\<close> or \<open>NaN\<close> for the three values that are not
  finite. Two numbers are equal when their texts are; both zeros print as \<open>0\<close>, and
  nothing here tells them apart.
\<close>

datatype jsval =
    VUndefined
  | VNull
  | VBool bool
  | VNum string
  | VStr string
  | VArr "jsval list" "(string \<times> jsval) list"
  | VObj "(string \<times> jsval) list"

text \<open>The numbers that are finite.\<close>

definition isFinite :: "string \<Rightarrow> bool" where
  "isFinite n = (n \<noteq> ''Infinity'' \<and> n \<noteq> ''-Infinity'' \<and> n \<noteq> ''NaN'')"

text \<open>Truthiness, as \<open>&&\<close>, \<open>||\<close> and \<open>!\<close> read a value.\<close>

fun truthy :: "jsval \<Rightarrow> bool" where
  "truthy VUndefined = False"
| "truthy VNull = False"
| "truthy (VBool b) = b"
| "truthy (VNum n) = (n \<noteq> ''0'' \<and> n \<noteq> ''NaN'')"
| "truthy (VStr s) = (s \<noteq> [])"
| "truthy (VArr xs ps) = True"
| "truthy (VObj kvs) = True"

fun typeof :: "jsval \<Rightarrow> string" where
  "typeof VUndefined = ''undefined''"
| "typeof VNull = ''object''"
| "typeof (VBool b) = ''boolean''"
| "typeof (VNum n) = ''number''"
| "typeof (VStr s) = ''string''"
| "typeof (VArr xs ps) = ''object''"
| "typeof (VObj kvs) = ''object''"

text \<open>
  The named properties of a value. For an array these are the properties beside its
  elements; the names that the sources look up are neither an index nor \<open>length\<close>, and
  no primitive value has a property of one of these names.
\<close>

fun namedProps :: "jsval \<Rightarrow> (string \<times> jsval) list" where
  "namedProps (VObj kvs) = kvs"
| "namedProps (VArr xs ps) = ps"
| "namedProps v = []"


text \<open>\<open>v.k\<close> on a value that is neither \<open>null\<close> nor \<open>undefined\<close>, and \<open>v?.k\<close> on any value.\<close>

definition prop_js :: "jsval \<Rightarrow> string \<Rightarrow> jsval" where
  "prop_js v k = (case map_of (namedProps v) k of Some x \<Rightarrow> x | None \<Rightarrow> VUndefined)"





section \<open>The error mapper (\<open>handleApiError\<close>)\<close>

text \<open>
  An instance of \<open>PiSpiError\<close> or of one of its subclasses; \<open>name\<close> is the class name that
  the constructor stores. A field that the class does not declare, or whose optional
  constructor argument is left out, is \<^const>\<open>VUndefined\<close>.
\<close>

record SdkError =
  name :: string
  message :: string
  statusCode :: jsval
  statusText :: jsval
  type' :: jsval
  detail :: jsval
  instance' :: jsval
  errors :: jsval
  retryAfter :: jsval












section \<open>The spec normalizer (\<open>scripts/pre-generate.js\<close>)\<close>

subsection \<open>Objects and arrays\<close>

text \<open>\<open>Array.isArray(v)\<close> and \<open>v.length\<close> of an array.\<close>

fun isArray :: "jsval \<Rightarrow> bool" where
  "isArray (VArr xs ps) = True"
| "isArray v = False"

fun arrayLength :: "jsval \<Rightarrow> nat" where
  "arrayLength (VArr xs ps) = length xs"
| "arrayLength v = 0"

text \<open>
  The assignment \<open>v.k = x\<close> on an object or an array: the property keeps its place when
  it exists and is appended otherwise. The scripts assign only behind a \<open>typeof\<close> check,
  never on another value.
\<close>

fun setProp :: "string \<Rightarrow> jsval \<Rightarrow> jsval \<Rightarrow> jsval" where
  "setProp k x (VObj kvs) = VObj (AList.update k x kvs)"
| "setProp k x (VArr xs ps) = VArr xs (AList.update k x ps)"
| "setProp k x v = v"

text \<open>
  \<open>Object.entries(v)\<close> of an object or an array: an array enumerates its elements under
  their indices in decimal notation, then its named properties.
\<close>

fun entries :: "jsval \<Rightarrow> (string \<times> jsval) list" where
  "entries (VObj kvs) = kvs"
| "entries (VArr xs ps) = zip (map showNat [0..<length xs]) xs @ ps"
| "entries v = []"

subsection \<open>Writing and reading the file\<close>

text \<open>The quoted form of a string in \<open>JSON.stringify\<close>.\<close>

definition hexDigit :: "nat \<Rightarrow> char" where
  "hexDigit n = ''0123456789abcdef'' ! n"

definition escapeChar :: "char \<Rightarrow> string" where
  "escapeChar c =
     (if c = CHR 0x22 then [CHR 0x5C, CHR 0x22]
      else if c = CHR 0x5C then [CHR 0x5C, CHR 0x5C]
      else if c = CHR 0x08 then [CHR 0x5C, CHR ''b'']
      else if c = CHR 0x0C then [CHR 0x5C, CHR ''f'']
      else if c = CHR 0x0A then [CHR 0x5C, CHR ''n'']
      else if c = CHR 0x0D then [CHR 0x5C, CHR ''r'']
      else if c = CHR 0x09 then [CHR 0x5C, CHR ''t'']
      else if (of_char c :: nat) < 32 then
        [CHR 0x5C, CHR ''u'', CHR ''0'', CHR ''0'',
         hexDigit (of_char c div 16), hexDigit (of_char c mod 16)]
      else [c])"

definition quote :: "string \<Rightarrow> string" where
  "quote s = CHR 0x22 # concat (map escapeChar s) @ [CHR 0x22]"

text \<open>
  \<open>JSON.stringify(v, null, 2)\<close> at the indentation \<open>ind\<close>. A property whose value is
  \<open>undefined\<close> is left out, an \<open>undefined\<close> element prints as \<open>null\<close>, so does a number
  that is not finite, and the named properties of an array are not printed.
\<close>

fun stringifyAt :: "string \<Rightarrow> jsval \<Rightarrow> string" where
  "stringifyAt ind VUndefined = ''null''"
| "stringifyAt ind VNull = ''null''"
| "stringifyAt ind (VBool b) = (if b then ''true'' else ''false'')"
| "stringifyAt ind (VNum n) = (if isFinite n then n else ''null'')"
| "stringifyAt ind (VStr s) = quote s"
| "stringifyAt ind (VArr xs ps) =
     (if xs = [] then ''[]''
      else ''['' @ [CHR 0x0A] @ ind @ ''  ''
           @ join ('','' @ [CHR 0x0A] @ ind @ ''  '') (map (stringifyAt (ind @ ''  '')) xs)
           @ [CHR 0x0A] @ ind @ '']'')"
| "stringifyAt ind (VObj kvs) =
     (if filter (\<lambda>kv. snd kv \<noteq> VUndefined) kvs = [] then ''{}''
      else ''{'' @ [CHR 0x0A] @ ind @ ''  ''
           @ join ('','' @ [CHR 0x0A] @ ind @ ''  '')
               (map (\<lambda>kv. quote (fst kv) @ '': '' @ stringifyAt (ind @ ''  '') (snd kv))
                  (filter (\<lambda>kv. snd kv \<noteq> VUndefined) kvs))
           @ [CHR 0x0A] @ ind @ ''}'')"

definition stringify :: "jsval \<Rightarrow> string" where
  "stringify v = stringifyAt [] v"

text \<open>
  What \<open>JSON.parse\<close> reads back from the text that \<open>JSON.stringify\<close> wrote for a value:
  the value without the named properties of its arrays and without its \<open>undefined\<close>
  properties, an \<open>undefined\<close> element and a number that is not finite read back as
  \<open>null\<close>. A finite number reads back as itself.
\<close>

fun reparse :: "jsval \<Rightarrow> jsval" where
  "reparse VUndefined = VNull"
| "reparse VNull = VNull"
| "reparse (VBool b) = VBool b"
| "reparse (VNum n) = (if isFinite n then VNum n else VNull)"
| "reparse (VStr s) = VStr s"
| "reparse (VArr xs ps) = VArr (map reparse xs) []"
| "reparse (VObj kvs) =
     VObj (map (\<lambda>kv. (fst kv, reparse (snd kv))) (filter (\<lambda>kv. snd kv \<noteq> VUndefined) kvs))"

text \<open>
  The values that \<open>JSON.parse\<close> returns. A number of the text beyond the range of a
  double, such as \<open>1e400\<close>, is read as \<open>Infinity\<close>; no text is read as \<open>NaN\<close>.
\<close>

fun isJson :: "jsval \<Rightarrow> bool" where
  "isJson VUndefined = False"
| "isJson VNull = True"
| "isJson (VBool b) = True"
| "isJson (VNum n) = (n \<noteq> ''NaN'')"
| "isJson (VStr s) = True"
| "isJson (VArr xs ps) = (ps = [] \<and> list_all isJson xs)"
| "isJson (VObj kvs) = list_all (\<lambda>kv. isJson (snd kv)) kvs"


subsection \<open>The script\<close>

text \<open>The checks of the top-level sections; \<^const>\<open>None\<close> when all pass.\<close>

definition validate :: "jsval \<Rightarrow> exn option" where
  "validate spec =
     (if spec = VNull then Some TypeError
      else if spec = VUndefined then Some TypeError
      else if \<not> truthy (prop_js spec ''openapi'') then
        Some (Error (''Missing '' @ quote ''openapi'' @ '' field''))
      else if \<not> truthy (prop_js spec ''info'') then
        Some (Error (''Missing '' @ quote ''info'' @ '' field''))
      else if \<not> truthy (prop_js spec ''paths'') then
        Some (Error (''Missing or invalid '' @ quote ''paths'' @ '' field''))
      else if typeof (prop_js spec ''paths'') \<noteq> ''object'' then
        Some (Error (''Missing or invalid '' @ quote ''paths'' @ '' field''))
      else if \<not> truthy (prop_js spec ''components'') then
        Some (Error (''Missing or invalid '' @ quote ''components'' @ '' field''))
      else if typeof (prop_js spec ''components'') \<noteq> ''object'' then
        Some (Error (''Missing or invalid '' @ quote ''components'' @ '' field''))
      else None)"

definition httpMethods :: "string list" where
  "httpMethods = [''get'', ''post'', ''put'', ''delete'', ''patch'', ''options'', ''head'']"

text \<open>\<open>httpMethods.includes(key.toLowerCase())\<close>.\<close>

definition isHttpMethod :: "string \<Rightarrow> bool" where
  "isHttpMethod key = (toLowerCase key \<in> set httpMethods)"

text \<open>
  The default \<open>operationId\<close> of the method \<open>key\<close> under \<open>path\<close>. \<open>p.charAt(0)\<close> is
  \<^term>\<open>take 1 p\<close> and \<open>p.slice(1)\<close> is \<^term>\<open>drop 1 p\<close>.
\<close>

definition operationId :: "string \<Rightarrow> string \<Rightarrow> string" where
  "operationId key path =
     (let pathParts = filter (\<lambda>p. p \<noteq> [] \<and> \<not> startsWith p ''{'') (split CHR ''/'' path)
      in toLowerCase key @ join [] (map (\<lambda>p. toUpperCase (take 1 p) @ drop 1 p) pathParts))"

text \<open>
  The body of the inner loop for a method key whose value is an object or an array: the
  value after the two repairs, and whether \<open>fixedPaths\<close> was incremented.
\<close>

definition fixOperation :: "string \<Rightarrow> string \<Rightarrow> jsval \<Rightarrow> jsval \<times> nat" where
  "fixOperation key path v =
     (let tags = prop_js v ''tags'';
          noTags = (if \<not> truthy tags then True
                    else if \<not> isArray tags then True
                    else arrayLength tags = 0);
          v1 = (if noTags then setProp ''tags'' (VArr [VStr ''Default''] []) v else v);
          v2 = (if \<not> truthy (prop_js v1 ''operationId'')
                then setProp ''operationId'' (VStr (operationId key path)) v1 else v1)
      in (v2, if noTags then 1 else 0))"

text \<open>
  The inner loop, over the entries of one path item: the entries after the loop, and
  the increments of \<open>fixedPaths\<close> and \<open>removedNullOps\<close>. Every entry has its own key, so
  deleting \<open>pathItem[key]\<close> drops the entry and a repair of \<open>value\<close> changes the entry
  in place.
\<close>

fun fixEntries :: "string \<Rightarrow> (string \<times> jsval) list \<Rightarrow> (string \<times> jsval) list \<times> nat \<times> nat" where
  "fixEntries path [] = ([], 0, 0)"
| "fixEntries path ((key, v) # rest) =
     (case fixEntries path rest of (rest', fixed, removed) \<Rightarrow>
        if isHttpMethod key then
          if v = VNull then (rest', fixed, Suc removed)
          else if v = VUndefined then (rest', fixed, Suc removed)
          else if typeof v \<noteq> ''object'' then ((key, v) # rest', fixed, removed)
          else (case fixOperation key path v of (v', n) \<Rightarrow>
                  ((key, v') # rest', n + fixed, removed))
        else ((key, v) # rest', fixed, removed))"

text \<open>
  One turn of the outer loop. The entries of an array are its elements under their
  indices, which are no method names, and its named properties.
\<close>

fun fixPathItem :: "string \<Rightarrow> jsval \<Rightarrow> jsval \<times> nat \<times> nat" where
  "fixPathItem path (VObj kvs) =
     (case fixEntries path kvs of (kvs', counts) \<Rightarrow> (VObj kvs', counts))"
| "fixPathItem path (VArr xs ps) =
     (case fixEntries path ps of (ps', counts) \<Rightarrow> (VArr xs ps', counts))"
| "fixPathItem path pathItem = (pathItem, 0, 0)"

text \<open>The outer loop, over a list of entries \<open>[path, pathItem]\<close>.\<close>

fun fixPathEntries :: "(string \<times> jsval) list \<Rightarrow> (string \<times> jsval) list \<times> nat \<times> nat" where
  "fixPathEntries [] = ([], 0, 0)"
| "fixPathEntries ((path, pathItem) # rest) =
     (case fixPathItem path pathItem of (pathItem', f1, r1) \<Rightarrow>
      case fixPathEntries rest of (rest', f2, r2) \<Rightarrow>
        ((path, pathItem') # rest', f1 + f2, r1 + r2))"

text \<open>The outer loop over \<open>Object.entries(spec.paths)\<close>, on the value of \<open>spec.paths\<close>.\<close>

fun fixPaths :: "jsval \<Rightarrow> jsval \<times> nat \<times> nat" where
  "fixPaths (VObj kvs) =
     (case fixPathEntries kvs of (kvs', counts) \<Rightarrow> (VObj kvs', counts))"
| "fixPaths (VArr xs ps) =
     (case fixPathEntries (zip (map showNat [0..<length xs]) xs) of (ixs', f1, r1) \<Rightarrow>
      case fixPathEntries ps of (ps', f2, r2) \<Rightarrow>
        (VArr (map snd ixs') ps', f1 + f2, r1 + r2))"
| "fixPaths paths = (paths, 0, 0)"

text \<open>
  The body of the \<open>try\<close> block on the parsed document, up to the write: the exception
  thrown, or the document as it stands before the write with the final values of
  \<open>fixedPaths\<close> and \<open>removedNullOps\<close>.
\<close>

definition normalize :: "jsval \<Rightarrow> exn + jsval \<times> nat \<times> nat" where
  "normalize spec =
     (case validate spec of
        Some e \<Rightarrow> Inl e
      | None \<Rightarrow>
          (let spec1 = (if \<not> truthy (prop_js spec ''tags'') then setProp ''tags'' (VArr [] []) spec
                        else if \<not> isArray (prop_js spec ''tags'') then setProp ''tags'' (VArr [] []) spec
                        else spec)
           in case fixPaths (prop_js spec1 ''paths'') of (paths', fixed, removed) \<Rightarrow>
                Inr (setProp ''paths'' paths' spec1, fixed, removed)))"

text \<open>
  One run of the script. \<open>parsed\<close> is the outcome of \<open>readFileSync\<close> and \<open>JSON.parse\<close>
  on the file: the parsed document, or the exception that one of the two throws.
  \<open>written\<close> is the text given to \<open>writeFileSync\<close>, \<^const>\<open>None\<close> when the run does not
  reach the write; \<open>diagnostic\<close> is the exception that the \<open>catch\<close> block prints before
  \<open>process.exit(1)\<close>.
\<close>

record run =
  exitCode :: nat
  written :: "string option"
  diagnostic :: "exn option"
  fixedPaths :: nat
  removedNullOps :: nat

definition preGenerate :: "exn + jsval \<Rightarrow> run" where
  "preGenerate parsed =
     (case parsed of
        Inl e \<Rightarrow> \<lparr> exitCode = 1, written = None, diagnostic = Some e,
                   fixedPaths = 0, removedNullOps = 0 \<rparr>
      | Inr spec \<Rightarrow>
          (case normalize spec of
             Inl e \<Rightarrow> \<lparr> exitCode = 1, written = None, diagnostic = Some e,
                        fixedPaths = 0, removedNullOps = 0 \<rparr>
           | Inr (spec', f, r) \<Rightarrow>
               \<lparr> exitCode = 0, written = Some (stringify spec'), diagnostic = None,
                 fixedPaths = f, removedNullOps = r \<rparr>))"


subsection \<open>Notions of the properties\<close>

text \<open>
  The operations of a document: the path, the key and the value of every entry of a
  path item whose key is an HTTP method name in any letter case.
\<close>

definition operations :: "jsval \<Rightarrow> (string \<times> string \<times> jsval) list" where
  "operations spec =
     concat (map (\<lambda>pe. map (\<lambda>e. (fst pe, fst e, snd e))
                          (filter (\<lambda>e. isHttpMethod (fst e)) (entries (snd pe))))
               (entries (prop_js spec ''paths'')))"

text \<open>An object in the sense of JSON: a mapping, neither an array nor \<open>null\<close>.\<close>

fun isObject :: "jsval \<Rightarrow> bool" where
  "isObject (VObj kvs) = True"
| "isObject v = False"

text \<open>The value has a non-empty \<open>tags\<close> array.\<close>

definition hasTags :: "jsval \<Rightarrow> bool" where
  "hasTags v = (isArray (prop_js v ''tags'') \<and> 0 < arrayLength (prop_js v ''tags''))"

text \<open>The value has an \<open>operationId\<close> that is a non-empty string.\<close>

definition hasOperationIdString :: "jsval \<Rightarrow> bool" where
  "hasOperationIdString v = (case prop_js v ''operationId'' of VStr s \<Rightarrow> s \<noteq> [] | _ \<Rightarrow> False)"

text \<open>
  The first characters of the segments of a path that are non-empty and do not start
  with \<open>{\<close>: the characters that the default \<open>operationId\<close> has in upper case.
\<close>

definition firstCharacters :: "string \<Rightarrow> string" where
  "firstCharacters path =
     concat (map (take 1)
       (filter (\<lambda>seg. seg \<noteq> [] \<and> hd seg \<noteq> CHR ''{'') (split CHR ''/'' path)))"

text \<open>A path segment with its first character in upper case.\<close>

fun capitalize :: "string \<Rightarrow> string" where
  "capitalize [] = []"
| "capitalize (c # cs) = toUpperCaseChar c @ cs"

text \<open>
  What the normalizer establishes for the value under a method key: it is neither
  \<open>null\<close> nor \<open>undefined\<close>, and when it is an object or an array it has a non-empty
  \<open>tags\<close> array and a truthy \<open>operationId\<close>.
\<close>

definition repaired :: "jsval \<Rightarrow> bool" where
  "repaired v =
     (v \<noteq> VNull \<and> v \<noteq> VUndefined \<and>
      (typeof v = ''object'' \<longrightarrow> hasTags v \<and> truthy (prop_js v ''operationId'')))"

text \<open>
  The same for the value as \<open>JSON.parse\<close> reads it back from the written file, when it
  is an object.
\<close>

definition repairedWhenWritten :: "jsval \<Rightarrow> bool" where
  "repairedWhenWritten v =
     (reparse v \<noteq> VNull \<and>
      (isObject v \<longrightarrow> hasTags (reparse v) \<and> truthy (prop_js (reparse v) ''operationId'')))"

text \<open>The same for every entry of a path item under a method key.\<close>

definition repairedItem :: "jsval \<Rightarrow> bool" where
  "repairedItem item = list_all (\<lambda>e. isHttpMethod (fst e) \<longrightarrow> repaired (snd e)) (entries item)"

text \<open>No method key of a path item holds an array.\<close>

definition noArrayOperations :: "jsval \<Rightarrow> bool" where
  "noArrayOperations spec = list_all (\<lambda>op. \<not> isArray (snd (snd op))) (operations spec)"

text \<open>The entries of an object as \<open>JSON.parse\<close> reads them back (\<^const>\<open>reparse\<close>).\<close>

definition reparseEntries :: "(string \<times> jsval) list \<Rightarrow> (string \<times> jsval) list" where
  "reparseEntries kvs =
     map (\<lambda>kv. (fst kv, reparse (snd kv))) (filter (\<lambda>kv. snd kv \<noteq> VUndefined) kvs)"

text \<open>
  A number that is not finite: in a parsed document, what \<open>JSON.parse\<close> read from a
  number beyond the range of a double.
\<close>

fun nonFinite :: "jsval \<Rightarrow> bool" where
  "nonFinite (VNum n) = (\<not> isFinite n)"
| "nonFinite v = False"

text \<open>The value under a method key is no such number, and neither is its \<open>operationId\<close>.\<close>

definition finiteOperation :: "jsval \<Rightarrow> bool" where
  "finiteOperation v = (\<not> nonFinite v \<and> \<not> nonFinite (prop_js v ''operationId''))"

text \<open>
  No such number stands where the script reads the document: under a method key of a
  path item or as the \<open>operationId\<close> of the value under a method key
  (\<open>finiteOperations\<close>), and as \<open>openapi\<close> or as \<open>info\<close>. Anywhere else the document may
  hold one.
\<close>

definition finiteOperations :: "jsval \<Rightarrow> bool" where
  "finiteOperations spec = list_all (\<lambda>op. finiteOperation (snd (snd op))) (operations spec)"

definition finiteWhereRead :: "jsval \<Rightarrow> bool" where
  "finiteWhereRead spec =
     (\<not> nonFinite (prop_js spec ''openapi'') \<and> \<not> nonFinite (prop_js spec ''info'')
      \<and> finiteOperations spec)"

text \<open>
  The run that follows the run on \<open>spec\<close>: it parses the text that the first run wrote,
  or the document again when the first run wrote nothing.
\<close>

definition secondRun :: "jsval \<Rightarrow> run" where
  "secondRun spec =
     (case normalize spec of
        Inl e \<Rightarrow> preGenerate (Inr spec)
      | Inr (spec', f, r) \<Rightarrow> preGenerate (Inr (reparse spec')))"

text \<open>The document after the repair of the top-level \<open>tags\<close>.\<close>

definition withTags :: "jsval \<Rightarrow> jsval" where
  "withTags d = (if isArray (prop_js d ''tags'') then d else setProp ''tags'' (VArr [] []) d)"

text \<open>
  Documents of the examples. \<open>overflowSpec\<close> is what \<open>JSON.parse\<close> reads from a text with
  \<open>"get": 1e400\<close> under the path \<open>/a\<close>; the four documents after it have \<open>1e400\<close> as
  \<open>info\<close>, as \<open>openapi\<close>, as the \<open>operationId\<close> of an operation, and inside
  \<open>components\<close>.
\<close>

definition arrayOperationSpec :: jsval where
  "arrayOperationSpec =
     VObj [(''openapi'', VStr ''3.0.0''), (''info'', VObj []),
           (''paths'', VObj [(''/a'', VObj [(''get'', VArr [] [])])]),
           (''components'', VObj [])]"

definition overflowSpec :: jsval where
  "overflowSpec =
     VObj [(''openapi'', VStr ''3.0.0''), (''info'', VObj []),
           (''paths'', VObj [(''/a'', VObj [(''get'', VNum ''Infinity'')])]),
           (''components'', VObj [])]"

definition overflowInfoSpec :: jsval where
  "overflowInfoSpec =
     VObj [(''openapi'', VStr ''3.0.0''), (''info'', VNum ''Infinity''),
           (''paths'', VObj []), (''components'', VObj [])]"

definition overflowOpenapiSpec :: jsval where
  "overflowOpenapiSpec =
     VObj [(''openapi'', VNum ''Infinity''), (''info'', VObj []),
           (''paths'', VObj []), (''components'', VObj [])]"

definition overflowOperationIdSpec :: jsval where
  "overflowOperationIdSpec =
     VObj [(''openapi'', VStr ''3.0.0''), (''info'', VObj []),
           (''paths'', VObj [(''/a'', VObj [(''get'',
              VObj [(''tags'', VArr [VStr ''a''] []), (''operationId'', VNum ''Infinity'')])])]),
           (''components'', VObj [])]"

definition overflowComponentsSpec :: jsval where
  "overflowComponentsSpec =
     VObj [(''openapi'', VStr ''3.0.0''), (''info'', VObj []),
           (''paths'', VObj [(''/a'', VObj [(''get'', VObj [])])]),
           (''components'', VObj [(''limit'', VNum ''Infinity'')])]"


definition stringOperationSpec :: jsval where
  "stringOperationSpec =
     VObj [(''openapi'', VStr ''3.0.0''), (''info'', VObj []),
           (''paths'', VObj [(''/a'', VObj [(''get'', VStr ''x''),
                                            (''post'', VObj [(''operationId'', VNum ''5'')])])]),
           (''components'', VObj [])]"


definition transfertsSpec :: jsval where
  "transfertsSpec =
     VObj [(''openapi'', VStr ''3.0.0''), (''info'', VObj []),
           (''paths'', VObj [(''/comptes/{numero}/transferts'',
                              VObj [(''post'', VObj []), (''GET'', VNull)])]),
           (''components'', VObj [])]"

section \<open>The patcher of the generated models (\<open>scripts/post-generate.js\<close>)\<close>

subsection \<open>Strings and patterns\<close>

text \<open>
  The classes \<open>\w\<close> and \<open>\s\<close> of a regular expression, on code units below 256:
  letters, digits and the underscore; tab, line feed, vertical tab, form feed, carriage
  return, space and the no-break space.
\<close>

definition isWordChar :: "char \<Rightarrow> bool" where
  "isWordChar c =
     (c \<in> set ''ABCDEFGHIJKLMNOPQRSTUVWXYZabcdefghijklmnopqrstuvwxyz0123456789_'')"

definition isSpace :: "char \<Rightarrow> bool" where
  "isSpace c = (c \<in> set [CHR 0x09, CHR 0x0A, CHR 0x0B, CHR 0x0C, CHR 0x0D, CHR 0x20, CHR 0xA0])"

text \<open>\<open>s.includes(p)\<close>.\<close>

fun includesText :: "string \<Rightarrow> string \<Rightarrow> bool" where
  "includesText [] p = (p = [])"
| "includesText (c # cs) p = (startsWith (c # cs) p \<or> includesText cs p)"

text \<open>
  \<open>s.replace(p, r)\<close> for a string \<open>p\<close>: the first occurrence of \<open>p\<close> is replaced, and
  \<open>s\<close> is returned as it is when \<open>p\<close> does not occur. The replacements of the script
  contain no \<open>$\<close>, which \<open>replace\<close> would expand.
\<close>

fun replaceFirst :: "string \<Rightarrow> string \<Rightarrow> string \<Rightarrow> string" where
  "replaceFirst p r [] = (if p = [] then r else [])"
| "replaceFirst p r (c # cs) =
     (if startsWith (c # cs) p then r @ drop (length p) (c # cs)
      else c # replaceFirst p r cs)"

subsection \<open>The correction table\<close>

definition emptyTypeFixes :: "(string \<times> string) list" where
  "emptyTypeFixes =
     [(''CompteTransfertIntraRequest'',
       ''{\<newline>    txId: string;\<newline>    montant: number;\<newline>    motif?: string;\<newline>    payeurNumero?: string;\<newline>    payeNumero?: string;\<newline>    payeurAlias?: string;\<newline>    payeAlias?: string;\<newline>}''),
      (''WebhookModificationRequest'',
       ''{\<newline>    callbackUrl?: string;\<newline>    alias?: string;\<newline>}''),
      (''remise'',
       ''{\<newline>    montant?: number;\<newline>    taux?: number;\<newline>}'')]"

text \<open>\<open>emptyTypeFixes['remise']\<close>.\<close>

definition remiseFix :: string where
  "remiseFix = ''{\<newline>    montant?: number;\<newline>    taux?: number;\<newline>}''"

text \<open>
  The names that the table, an object literal, inherits from \<open>Object.prototype\<close>. The
  lookup of such a name yields a function, or for \<open>__proto__\<close> the prototype object.
\<close>

definition inheritedFunctions :: "string list" where
  "inheritedFunctions =
     [''toString'', ''toLocaleString'', ''valueOf'', ''hasOwnProperty'', ''isPrototypeOf'',
      ''propertyIsEnumerable'', ''__defineGetter__'', ''__defineSetter__'',
      ''__lookupGetter__'', ''__lookupSetter__'']"

text \<open>
  The text of \<open>${emptyTypeFixes[typeName]}\<close> when \<open>emptyTypeFixes[typeName]\<close> is truthy,
  and \<^const>\<open>None\<close> when it is \<open>undefined\<close>: the entry of the table, or the text that
  Node prints for an inherited value.
\<close>

definition lookupFix :: "string \<Rightarrow> string option" where
  "lookupFix typeName =
     (case map_of emptyTypeFixes typeName of
        Some body \<Rightarrow> Some body
      | None \<Rightarrow>
          if typeName = ''constructor'' then Some ''function Object() { [native code] }''
          else if typeName = ''__proto__'' then Some ''[object Object]''
          else if typeName \<in> set inheritedFunctions
          then Some (''function '' @ typeName @ ''() { [native code] }'')
          else None)"

text \<open>
  An object type as the table writes it: one line per field, indented by four spaces,
  a \<open>?\<close> after the name of an optional field.
\<close>

definition objectType :: "(string \<times> bool \<times> string) list \<Rightarrow> string" where
  "objectType fs =
     ''{'' @ [CHR 0x0A]
     @ concat (map (\<lambda>f. ''    '' @ fst f @ (if fst (snd f) then ''?'' else [])
                           @ '': '' @ snd (snd f) @ '';'' @ [CHR 0x0A]) fs)
     @ ''}''"

subsection \<open>Rule 1: empty type aliases\<close>

text \<open>
  A match of \<open>/export type (\w+) = \s*;/\<close> at the start of \<open>s\<close>: the captured name and
  the length of the match. The greedy \<open>\w+\<close> and \<open>\s*\<close> take every character of their
  class, since the character that must follow is not of the class.
\<close>

definition matchEmptyType :: "string \<Rightarrow> (string \<times> nat) option" where
  "matchEmptyType s =
     (if startsWith s ''export type '' then
        (let r1 = drop 12 s;
             typeName = takeWhile isWordChar r1;
             r2 = dropWhile isWordChar r1
         in if typeName \<noteq> [] \<and> startsWith r2 '' = '' then
              (let r3 = drop 3 r2;
                   ws = takeWhile isSpace r3
               in if startsWith (dropWhile isSpace r3) '';''
                  then Some (typeName, 12 + length typeName + 3 + length ws + 1)
                  else None)
            else None)
      else None)"

text \<open>The leftmost match in \<open>s\<close>: its position, the captured name and its length.\<close>

fun search :: "string \<Rightarrow> (nat \<times> string \<times> nat) option" where
  "search [] = None"
| "search (c # cs) =
     (case matchEmptyType (c # cs) of
        Some (typeName, len) \<Rightarrow> Some (0, typeName, len)
      | None \<Rightarrow> map_option (\<lambda>m. (Suc (fst m), snd m)) (search cs))"

text \<open>
  \<open>emptyTypePattern.exec(content)\<close> of the global pattern at \<open>lastIndex\<close>: the new
  \<open>lastIndex\<close>, which is the end of the match, and the captured name; \<^const>\<open>None\<close> for
  \<open>null\<close>.
\<close>

definition exec :: "string \<Rightarrow> nat \<Rightarrow> (nat \<times> string) option" where
  "exec content lastIndex =
     (if lastIndex > length content then None
      else map_option (\<lambda>m. (lastIndex + fst m + snd (snd m), fst (snd m)))
             (search (drop lastIndex content)))"

text \<open>
  The \<open>while\<close> loop: \<open>content\<close> changes under the pattern, which goes on from its
  \<open>lastIndex\<close> in the new content. The result is the content, the fixes counted and
  \<open>modified\<close> when the loop ends; \<^const>\<open>None\<close> stands for a loop that does not end.
\<close>

partial_function (option)
  fixLoop :: "string \<Rightarrow> nat \<Rightarrow> nat \<Rightarrow> bool \<Rightarrow> (string \<times> nat \<times> bool) option" where
  "fixLoop content lastIndex fixedCount modified =
     (case exec content lastIndex of
        None \<Rightarrow> Some (content, fixedCount, modified)
      | Some m \<Rightarrow>
          (case lookupFix (snd m) of
             Some body \<Rightarrow>
               fixLoop
                 (replaceFirst (''export type '' @ snd m @ '' = ;'')
                    (''export type '' @ snd m @ '' = '' @ body @ '';'') content)
                 (fst m) (Suc fixedCount) True
           | None \<Rightarrow> fixLoop content (fst m) fixedCount modified))"

declare fixLoop.simps [code]

subsection \<open>Rule 2: inline \<open>remise\<close> fields\<close>

text \<open>
  A match of \<open>/(\s+)(remise)\??:\s*;/\<close> at the start of \<open>s\<close>: the first group and the
  text after the match.
\<close>

definition matchRemise :: "string \<Rightarrow> (string \<times> string) option" where
  "matchRemise s =
     (let ws = takeWhile isSpace s;
          r1 = dropWhile isSpace s
      in if ws \<noteq> [] \<and> startsWith r1 ''remise'' then
           (let r2 = drop 6 r1;
                r3 = (if startsWith r2 ''?'' then drop 1 r2 else r2)
            in if startsWith r3 '':'' then
                 (case dropWhile isSpace (drop 1 r3) of
                    [] \<Rightarrow> None
                  | c # rest \<Rightarrow> if c = CHR '';'' then Some (ws, rest) else None)
               else None)
         else None)"

text \<open>\<open>remisePattern.test(content)\<close> of the new pattern.\<close>

fun hasRemise :: "string \<Rightarrow> bool" where
  "hasRemise [] = False"
| "hasRemise (c # cs) = (if matchRemise (c # cs) = None then hasRemise cs else True)"

lemma dropWhile_shorter: "length (dropWhile P xs) \<le> length xs"
  by (induction xs) simp_all

lemma matchRemise_shorter:
  assumes "matchRemise s = Some (ws, rest)"
  shows "length rest < length s"
proof -
  define r1 where "r1 = dropWhile isSpace s"
  define r3 where "r3 = (if startsWith (drop 6 r1) ''?'' then drop 1 (drop 6 r1) else drop 6 r1)"
  define r4 where "r4 = dropWhile isSpace (drop 1 r3)"
  have m: "matchRemise s =
      (if takeWhile isSpace s \<noteq> [] \<and> startsWith r1 ''remise'' then
         (if startsWith r3 '':'' then
            (case r4 of [] \<Rightarrow> None
             | c # rest \<Rightarrow> if c = CHR '';'' then Some (takeWhile isSpace s, rest) else None)
          else None)
       else None)"
    unfolding matchRemise_def Let_def r1_def r3_def r4_def ..
  have "r4 = CHR '';'' # rest"
  proof (cases r4)
    case Nil
    with assms m show ?thesis by (simp split: if_splits)
  next
    case (Cons c cs)
    with assms m show ?thesis by (simp split: if_splits)
  qed
  then have "length rest < length r4"
    by simp
  also have "\<dots> \<le> length (drop 1 r3)"
    unfolding r4_def by (rule dropWhile_shorter)
  also have "\<dots> \<le> length r3"
    by simp
  also have "\<dots> \<le> length r1"
    unfolding r3_def by simp
  also have "\<dots> \<le> length s"
    unfolding r1_def by (rule dropWhile_shorter)
  finally show ?thesis .
qed

text \<open>
  \<open>content.replace(remisePattern, `$1$2?: ${emptyTypeFixes['remise']}`)\<close>: every match,
  from left to right, becomes its first group, \<open>remise?: \<close> and the table entry.
\<close>

function replaceRemise :: "string \<Rightarrow> string" where
  "replaceRemise [] = []"
| "replaceRemise (c # cs) =
     (case matchRemise (c # cs) of
        Some m \<Rightarrow> fst m @ ''remise?: '' @ remiseFix @ replaceRemise (snd m)
      | None \<Rightarrow> c # replaceRemise cs)"
  by pat_completeness auto
termination
  by (relation "measure length") (auto dest: matchRemise_shorter)

subsection \<open>Rule 3: the text \<open>remise: ;\<close>\<close>

text \<open>A match of \<open>/remise:\s*;/\<close> at the start of \<open>s\<close>: the text after the match.\<close>

definition matchRemiseDefinition :: "string \<Rightarrow> string option" where
  "matchRemiseDefinition s =
     (if startsWith s ''remise:'' then
        (case dropWhile isSpace (drop 7 s) of
           [] \<Rightarrow> None
         | c # rest \<Rightarrow> if c = CHR '';'' then Some rest else None)
      else None)"

lemma matchRemiseDefinition_shorter:
  assumes "matchRemiseDefinition s = Some rest"
  shows "length rest < length s"
proof -
  define r where "r = dropWhile isSpace (drop 7 s)"
  have m: "matchRemiseDefinition s =
      (if startsWith s ''remise:'' then
         (case r of [] \<Rightarrow> None
          | c # rest \<Rightarrow> if c = CHR '';'' then Some rest else None)
       else None)"
    unfolding matchRemiseDefinition_def r_def ..
  have "r = CHR '';'' # rest"
  proof (cases r)
    case Nil
    with assms m show ?thesis by (simp split: if_splits)
  next
    case (Cons c cs)
    with assms m show ?thesis by (simp split: if_splits)
  qed
  then have "length rest < length r"
    by simp
  also have "\<dots> \<le> length (drop 7 s)"
    unfolding r_def by (rule dropWhile_shorter)
  also have "\<dots> \<le> length s"
    by simp
  finally show ?thesis .
qed

text \<open>\<open>content.replace(/remise:\s*;/g, `remise: ${emptyTypeFixes['remise']}`)\<close>.\<close>

function replaceRemiseDefinition :: "string \<Rightarrow> string" where
  "replaceRemiseDefinition [] = []"
| "replaceRemiseDefinition (c # cs) =
     (case matchRemiseDefinition (c # cs) of
        Some rest \<Rightarrow> ''remise: '' @ remiseFix @ replaceRemiseDefinition rest
      | None \<Rightarrow> c # replaceRemiseDefinition cs)"
  by pat_completeness auto
termination
  by (relation "measure length") (auto dest: matchRemiseDefinition_shorter)

subsection \<open>The script\<close>

text \<open>
  The second and the third rule, on the content, the count of fixes and \<open>modified\<close> as
  the rule before left them.
\<close>

definition fixRemise :: "string \<times> nat \<times> bool \<Rightarrow> string \<times> nat \<times> bool" where
  "fixRemise st =
     (if hasRemise (fst st) then (replaceRemise (fst st), Suc (fst (snd st)), True) else st)"

definition fixRemiseDefinition :: "string \<times> nat \<times> bool \<Rightarrow> string \<times> nat \<times> bool" where
  "fixRemiseDefinition st =
     (if includesText (fst st) ''remise: ;''
      then (replaceRemiseDefinition (fst st), Suc (fst (snd st)), True) else st)"

text \<open>
  The body of the loop over the files for one model file: the content at the end, the
  fixes counted for the file, and \<open>modified\<close>.
\<close>

definition fixFile :: "string \<Rightarrow> (string \<times> nat \<times> bool) option" where
  "fixFile content =
     map_option (\<lambda>st. fixRemiseDefinition (fixRemise st)) (fixLoop content 0 0 False)"

text \<open>
  The state of \<open>fixEmptyTypes\<close>: the model files with their contents, \<open>fixedCount\<close>, and
  the calls of \<open>writeFileSync\<close> in order.
\<close>

record patch =
  models :: "(string \<times> string) list"
  fixedCount :: nat
  writes :: "(string \<times> string) list"

text \<open>The loop over the files of the directory; only a modified file is written.\<close>

fun fixFiles :: "(string \<times> string) list \<Rightarrow> patch option" where
  "fixFiles [] = Some \<lparr> models = [], fixedCount = 0, writes = [] \<rparr>"
| "fixFiles ((file, content) # files) =
     (if \<not> endsWith file ''.ts'' then
        map_option (\<lambda>p. p\<lparr> models := (file, content) # models p \<rparr>) (fixFiles files)
      else
        (case fixFile content of
           None \<Rightarrow> None
         | Some st \<Rightarrow>
             map_option
               (\<lambda>p. \<lparr> models = (file, fst st) # models p,
                       fixedCount = fst (snd st) + fixedCount p,
                       writes = (if snd (snd st) then [(file, fst st)] else []) @ writes p \<rparr>)
               (fixFiles files)))"

text \<open>
  \<open>fixEmptyTypes()\<close> on the models directory, \<^const>\<open>None\<close> when the directory cannot be
  listed: then the \<open>catch\<close> block warns and nothing changes.
\<close>

definition fixEmptyTypes :: "(string \<times> string) list option \<Rightarrow> patch option" where
  "fixEmptyTypes dir =
     (case dir of
        None \<Rightarrow> Some \<lparr> models = [], fixedCount = 0, writes = [] \<rparr>
      | Some files \<Rightarrow> fixFiles files)"

subsection \<open>Notions of the properties\<close>

text \<open>
  Every empty type alias of the content, at any position, names an identifier for which
  the lookup in the table yields nothing.
\<close>

fun noKnownEmptyType :: "string \<Rightarrow> bool" where
  "noKnownEmptyType [] = True"
| "noKnownEmptyType (c # cs) =
     ((case matchEmptyType (c # cs) of
         Some m \<Rightarrow> lookupFix (fst m) = None
       | None \<Rightarrow> True)
      \<and> noKnownEmptyType cs)"

text \<open>No match of the pattern of rule 2 starts inside \<open>pre\<close> in the text \<open>pre @ rest\<close>.\<close>

fun unmatchedPrefix :: "string \<Rightarrow> string \<Rightarrow> bool" where
  "unmatchedPrefix [] rest = True"
| "unmatchedPrefix (c # cs) rest =
     (matchRemise (c # cs @ rest) = None \<and> unmatchedPrefix cs rest)"

text \<open>The files of the examples.\<close>

definition emptyCompteTransfert :: string where
  "emptyCompteTransfert = ''export type CompteTransfertIntraRequest = ;''"

definition repairedCompteTransfert :: string where
  "repairedCompteTransfert =
     ''export type CompteTransfertIntraRequest = ''
     @ objectType
         [(''txId'', False, ''string''), (''montant'', False, ''number''),
          (''motif'', True, ''string''), (''payeurNumero'', True, ''string''),
          (''payeNumero'', True, ''string''), (''payeurAlias'', True, ''string''),
          (''payeAlias'', True, ''string'')]
     @ '';''"

section \<open>Properties of the error mapper\<close>








section \<open>Properties of the spec normalizer\<close>

subsection \<open>Properties of the steps\<close>


lemma prop_js_setProp_same:
  "typeof v = ''object'' \<Longrightarrow> v \<noteq> VNull \<Longrightarrow> prop_js (setProp k x v) k = x"
  by (cases v) (simp_all add: prop_js_def update_conv')

lemma prop_js_setProp_other:
  "k' \<noteq> k \<Longrightarrow> prop_js (setProp k x v) k' = prop_js v k'"
  by (cases v) (simp_all add: prop_js_def update_conv')

lemma typeof_setProp [simp]: "typeof (setProp k x v) = typeof v"
  by (cases v) simp_all

lemma setProp_eq_VNull [simp]: "setProp k x v = VNull \<longleftrightarrow> v = VNull"
  by (cases v) simp_all

lemma setProp_eq_VUndefined [simp]: "setProp k x v = VUndefined \<longleftrightarrow> v = VUndefined"
  by (cases v) simp_all

lemma isHttpMethod_nonempty: "isHttpMethod key \<Longrightarrow> toLowerCase key \<noteq> []"
  by (auto simp: isHttpMethod_def httpMethods_def)

lemma operationId_nonempty: "isHttpMethod key \<Longrightarrow> operationId key path \<noteq> []"
  by (simp add: operationId_def Let_def isHttpMethod_nonempty)


lemma noTags_iff:
  "(if \<not> truthy t then True else if \<not> isArray t then True else arrayLength t = 0)
     = (\<not> (isArray t \<and> 0 < arrayLength t))"
  by (cases t) auto

lemma fixOperation_good:
  assumes "typeof v = ''object''" "v \<noteq> VNull" "isHttpMethod key"
  shows "hasTags (fst (fixOperation key path v))"
    and "truthy (prop_js (fst (fixOperation key path v)) ''operationId'')"
  using assms
  by (auto simp: fixOperation_def Let_def noTags_iff hasTags_def prop_js_setProp_same
      prop_js_setProp_other operationId_nonempty)

lemma fixOperation_idem:
  assumes "typeof v = ''object''" "v \<noteq> VNull" "isHttpMethod key"
  shows "fixOperation key path (fst (fixOperation key path v)) = (fst (fixOperation key path v), 0)"
proof -
  have "hasTags (fst (fixOperation key path v))"
    and "truthy (prop_js (fst (fixOperation key path v)) ''operationId'')"
    using fixOperation_good [OF assms] by auto
  then show ?thesis
    by (simp add: fixOperation_def [of key path "fst (fixOperation key path v)"] Let_def noTags_iff hasTags_def)
qed


lemma typeof_fixOperation [simp]: "typeof (fst (fixOperation key path v)) = typeof v"
  by (simp add: fixOperation_def Let_def)

lemma fixOperation_eq_VNull [simp]: "fst (fixOperation key path v) = VNull \<longleftrightarrow> v = VNull"
  by (simp add: fixOperation_def Let_def)

lemma fixOperation_eq_VUndefined [simp]:
  "fst (fixOperation key path v) = VUndefined \<longleftrightarrow> v = VUndefined"
  by (simp add: fixOperation_def Let_def)

lemma fixEntries_good:
  "list_all (\<lambda>e. isHttpMethod (fst e) \<longrightarrow> repaired (snd e)) (fst (fixEntries path kvs))"
proof (induction kvs)
  case Nil
  show ?case by simp
next
  case (Cons e kvs)
  obtain key v where e: "e = (key, v)" by (cases e)
  obtain rest' f r where rest: "fixEntries path kvs = (rest', f, r)" by (cases "fixEntries path kvs")
  obtain v' n where op: "fixOperation key path v = (v', n)" by (cases "fixOperation key path v")
  have v': "v' = fst (fixOperation key path v)" using op by simp
  have "repaired v'" if "isHttpMethod key" "v \<noteq> VNull" "v \<noteq> VUndefined" "typeof v = ''object''"
    using fixOperation_good [OF that(4,2,1), of path] that
    by (simp add: repaired_def v')
  with Cons e rest op show ?case
    by (auto simp: repaired_def)
qed

lemma fixEntries_idem:
  "fixEntries path (fst (fixEntries path kvs)) = (fst (fixEntries path kvs), 0, 0)"
proof (induction kvs)
  case Nil
  show ?case by simp
next
  case (Cons e kvs)
  obtain key v where e: "e = (key, v)" by (cases e)
  obtain rest' f r where rest: "fixEntries path kvs = (rest', f, r)" by (cases "fixEntries path kvs")
  obtain v' n where op: "fixOperation key path v = (v', n)" by (cases "fixOperation key path v")
  have again: "fixOperation key path v' = (v', 0) \<and> v' \<noteq> VNull \<and> v' \<noteq> VUndefined \<and> typeof v' = ''object''"
    if "isHttpMethod key" "v \<noteq> VNull" "typeof v = ''object''"
  proof -
    have "fixOperation key path v' = (v', 0)"
      using fixOperation_idem [OF that(3,2,1), of path] op by simp
    moreover have "v' = fst (fixOperation key path v)" using op by simp
    then have "typeof v' = ''object'' \<and> v' \<noteq> VNull \<and> v' \<noteq> VUndefined"
      using that by auto
    ultimately show ?thesis by simp
  qed
  from Cons e rest op again show ?case
    by auto
qed

lemma list_all_update:
  "list_all P kvs \<Longrightarrow> P (k, x) \<Longrightarrow> list_all P (AList.update k x kvs)"
  by (induction kvs) auto

lemma isArray_setProp [simp]: "isArray (setProp k x v) = isArray v"
  by (cases v) simp_all

lemma showNat_digits: "showNat n \<noteq> [] \<and> set (showNat n) \<subseteq> set ''0123456789''"
proof (induction n rule: showNat.induct)
  case (1 n)
  show ?case
  proof (cases "n < 10")
    case True
    then have "''0123456789'' ! n \<in> set ''0123456789''"
      by (intro nth_mem) simp
    with True show ?thesis
      by (subst (1 2) showNat.simps) simp
  next
    case False
    have "n mod 10 < 10" by simp
    then have "''0123456789'' ! (n mod 10) \<in> set ''0123456789''"
      by (intro nth_mem) simp
    with False 1 show ?thesis
      by (subst (1 2) showNat.simps) simp
  qed
qed

lemma toLowerCaseChar_digit: "c \<in> set ''0123456789'' \<Longrightarrow> toLowerCaseChar c = c"
proof -
  assume "c \<in> set ''0123456789''"
  then consider "c = CHR ''0''" | "c = CHR ''1''" | "c = CHR ''2''" | "c = CHR ''3''"
    | "c = CHR ''4''" | "c = CHR ''5''" | "c = CHR ''6''" | "c = CHR ''7''" | "c = CHR ''8''"
    | "c = CHR ''9''"
    by auto
  then show ?thesis
    by cases (simp_all add: toLowerCaseChar_def latin1Upper_def latin1Lower_def)
qed

lemma not_isHttpMethod_showNat: "\<not> isHttpMethod (showNat n)"
proof
  assume m: "isHttpMethod (showNat n)"
  obtain c cs where s: "showNat n = c # cs"
    using showNat_digits [of n] by (cases "showNat n") auto
  then have digit: "c \<in> set ''0123456789''"
    using showNat_digits [of n] by auto
  then have "toLowerCaseChar c = c"
    by (rule toLowerCaseChar_digit)
  then have "hd (toLowerCase (showNat n)) = c"
    by (simp add: s toLowerCase_def)
  moreover have "hd k \<notin> set ''0123456789''" if "k \<in> set httpMethods" for k
    using that by (auto simp: httpMethods_def)
  ultimately show False
    using m digit unfolding isHttpMethod_def by blast
qed

lemma list_all_index_entries:
  "list_all (\<lambda>e. isHttpMethod (fst e) \<longrightarrow> P (snd e)) (zip (map showNat ns) xs)"
  by (auto simp: list_all_iff not_isHttpMethod_showNat dest!: set_zip_leftD)

lemma fst_fixPathItem:
  "fst (fixPathItem path (VObj kvs)) = VObj (fst (fixEntries path kvs))"
  "fst (fixPathItem path (VArr xs ps)) = VArr xs (fst (fixEntries path ps))"
  by (cases "fixEntries path kvs", simp) (cases "fixEntries path ps", simp)

lemma snd_fixPathItem:
  "snd (fixPathItem path (VObj kvs)) = snd (fixEntries path kvs)"
  "snd (fixPathItem path (VArr xs ps)) = snd (fixEntries path ps)"
  by (cases "fixEntries path kvs", simp) (cases "fixEntries path ps", simp)

lemma fixPathItem_good: "repairedItem (fst (fixPathItem path item))"
proof (cases item)
  case (VObj kvs)
  then show ?thesis
    using fixEntries_good [of path kvs]
    by (simp add: repairedItem_def fst_fixPathItem del: fixPathItem.simps(1,2))
next
  case (VArr xs ps)
  then show ?thesis
    using fixEntries_good [of path ps]
    by (simp add: repairedItem_def list_all_index_entries fst_fixPathItem del: fixPathItem.simps(1,2))
qed (simp_all add: repairedItem_def)

lemma fixPathItem_idem:
  "fixPathItem path (fst (fixPathItem path item)) = (fst (fixPathItem path item), 0, 0)"
proof (cases item)
  case (VObj kvs)
  then show ?thesis
    using fixEntries_idem [of path kvs]
    by (simp add: prod_eq_iff fst_fixPathItem snd_fixPathItem del: fixPathItem.simps(1,2))
next
  case (VArr xs ps)
  then show ?thesis
    using fixEntries_idem [of path ps]
    by (simp add: prod_eq_iff fst_fixPathItem snd_fixPathItem del: fixPathItem.simps(1,2))
qed simp_all

lemma fst_fixPathEntries_Cons:
  "fst (fixPathEntries ((path, item) # rest))
     = (path, fst (fixPathItem path item)) # fst (fixPathEntries rest)"
  by (cases "fixPathItem path item"; cases "fixPathEntries rest") simp

lemma snd_fixPathEntries_Cons:
  "snd (fixPathEntries ((path, item) # rest))
     = (fst (snd (fixPathItem path item)) + fst (snd (fixPathEntries rest)),
        snd (snd (fixPathItem path item)) + snd (snd (fixPathEntries rest)))"
  by (cases "fixPathItem path item"; cases "fixPathEntries rest") simp

lemma fixPathEntries_good:
  "list_all (\<lambda>pe. repairedItem (snd pe)) (fst (fixPathEntries kvs))"
proof (induction kvs)
  case Nil
  show ?case by simp
next
  case (Cons pe kvs)
  obtain path item where pe: "pe = (path, item)" by (cases pe)
  show ?case
    using Cons fixPathItem_good [of path item]
    by (simp add: pe fst_fixPathEntries_Cons del: fixPathEntries.simps)
qed

lemma fixPathEntries_keys: "map fst (fst (fixPathEntries kvs)) = map fst kvs"
proof (induction kvs)
  case Nil
  show ?case by simp
next
  case (Cons pe kvs)
  obtain path item where pe: "pe = (path, item)" by (cases pe)
  show ?case
    using Cons by (simp add: pe fst_fixPathEntries_Cons del: fixPathEntries.simps)
qed

lemma fixPathEntries_idem:
  "fixPathEntries (fst (fixPathEntries kvs)) = (fst (fixPathEntries kvs), 0, 0)"
proof (induction kvs)
  case Nil
  show ?case by simp
next
  case (Cons pe kvs)
  obtain path item where pe: "pe = (path, item)" by (cases pe)
  show ?case
    using Cons fixPathItem_idem [of path item]
    by (simp add: pe prod_eq_iff fst_fixPathEntries_Cons snd_fixPathEntries_Cons
        del: fixPathEntries.simps)
qed

lemma fst_fixPaths:
  "fst (fixPaths (VObj kvs)) = VObj (fst (fixPathEntries kvs))"
  "fst (fixPaths (VArr xs ps))
     = VArr (map snd (fst (fixPathEntries (zip (map showNat [0..<length xs]) xs))))
         (fst (fixPathEntries ps))"
  by (cases "fixPathEntries kvs", simp)
    (cases "fixPathEntries (zip (map showNat [0..<length xs]) xs)"; cases "fixPathEntries ps"; simp)

lemma fixPaths_shape [simp]:
  "typeof (fst (fixPaths paths)) = typeof paths"
  "truthy (fst (fixPaths paths)) = truthy paths"
  by (cases paths; simp add: fst_fixPaths del: fixPaths.simps(1,2))+

lemma list_all_snd_zip:
  "length ks = length vs \<Longrightarrow> list_all (\<lambda>pe. P (snd pe)) (zip ks vs) = list_all P vs"
  by (induction ks vs rule: list_induct2) simp_all

lemma fixPathEntries_length: "length (fst (fixPathEntries kvs)) = length kvs"
  using arg_cong [OF fixPathEntries_keys [of kvs], of length] by simp

lemma list_all_map_snd: "list_all P (map snd kvs) = list_all (\<lambda>pe. P (snd pe)) kvs"
  by (induction kvs) simp_all

lemma fixPaths_good:
  "list_all (\<lambda>pe. repairedItem (snd pe)) (entries (fst (fixPaths paths)))"
proof (cases paths)
  case (VObj kvs)
  then show ?thesis
    using fixPathEntries_good [of kvs]
    by (simp add: fst_fixPaths del: fixPaths.simps(1,2))
next
  case (VArr xs ps)
  let ?ixs = "fst (fixPathEntries (zip (map showNat [0..<length xs]) xs))"
  have "list_all repairedItem (map snd ?ixs)"
    using fixPathEntries_good [of "zip (map showNat [0..<length xs]) xs"]
    by (simp add: list_all_map_snd)
  then have "list_all (\<lambda>pe. repairedItem (snd pe))
      (zip (map showNat [0..<length (map snd ?ixs)]) (map snd ?ixs))"
    by (subst list_all_snd_zip) simp_all
  with VArr show ?thesis
    using fixPathEntries_good [of ps]
    by (simp add: fst_fixPaths del: fixPaths.simps(1,2))
qed simp_all

lemma snd_fixPaths:
  "snd (fixPaths (VObj kvs)) = snd (fixPathEntries kvs)"
  "snd (fixPaths (VArr xs ps))
     = (fst (snd (fixPathEntries (zip (map showNat [0..<length xs]) xs)))
          + fst (snd (fixPathEntries ps)),
        snd (snd (fixPathEntries (zip (map showNat [0..<length xs]) xs)))
          + snd (snd (fixPathEntries ps)))"
  by (cases "fixPathEntries kvs", simp)
    (cases "fixPathEntries (zip (map showNat [0..<length xs]) xs)"; cases "fixPathEntries ps"; simp)

lemma fixPaths_idem:
  "fixPaths (fst (fixPaths paths)) = (fst (fixPaths paths), 0, 0)"
proof (cases paths)
  case (VObj kvs)
  then show ?thesis
    using fixPathEntries_idem [of kvs]
    by (simp add: prod_eq_iff fst_fixPaths snd_fixPaths del: fixPaths.simps(1,2))
next
  case (VArr xs ps)
  let ?ixs = "fst (fixPathEntries (zip (map showNat [0..<length xs]) xs))"
  have "map fst ?ixs = map showNat [0..<length xs]"
    by (simp add: fixPathEntries_keys)
  moreover have "length ?ixs = length xs"
    by (simp add: fixPathEntries_length)
  ultimately have "zip (map showNat [0..<length (map snd ?ixs)]) (map snd ?ixs) = ?ixs"
    by (metis length_map zip_map_fst_snd)
  with VArr show ?thesis
    using fixPathEntries_idem [of "zip (map showNat [0..<length xs]) xs"]
      fixPathEntries_idem [of ps]
    by (simp add: prod_eq_iff fst_fixPaths snd_fixPaths del: fixPaths.simps(1,2))
qed simp_all

lemma isArray_truthy: "isArray t \<Longrightarrow> truthy t"
  by (cases t) simp_all

lemma truthy_prop_js_object:
  "truthy (prop_js d k) \<Longrightarrow> typeof d = ''object'' \<and> d \<noteq> VNull \<and> d \<noteq> VUndefined"
  by (cases d) (simp_all add: prop_js_def)

lemma setProp_setProp_same:
  "setProp k x (setProp k x v) = setProp k x v"
  by (cases v) (simp_all add: update_triv update_conv')

lemma isJson_prop_js:
  "isJson d \<Longrightarrow> prop_js d k \<noteq> VUndefined \<Longrightarrow> isJson (prop_js d k)"
proof (cases d)
  case (VObj kvs)
  assume j: "isJson d" and u: "prop_js d k \<noteq> VUndefined"
  then obtain x where x: "map_of kvs k = Some x"
    using VObj by (auto simp: prop_js_def split: option.splits)
  then have "(k, x) \<in> set kvs" by (rule map_of_SomeD)
  then have "isJson x" using j VObj by (auto simp: list_all_iff)
  with x VObj show ?thesis by (simp add: prop_js_def)
qed (simp_all add: prop_js_def)

lemma normalize_unfold:
  "normalize d =
     (case validate d of Some e \<Rightarrow> Inl e
      | None \<Rightarrow> Inr (setProp ''paths'' (fst (fixPaths (prop_js d ''paths''))) (withTags d),
                       snd (fixPaths (prop_js d ''paths''))))"
proof -
  have paths: "prop_js (withTags d) ''paths'' = prop_js d ''paths''"
    by (simp add: withTags_def prop_js_setProp_other)
  have tags: "(if \<not> truthy (prop_js d ''tags'') then setProp ''tags'' (VArr [] []) d
          else if \<not> isArray (prop_js d ''tags'') then setProp ''tags'' (VArr [] []) d
          else d) = withTags d"
    using isArray_truthy [of "prop_js d ''tags''"] by (auto simp: withTags_def)
  show ?thesis
    unfolding normalize_def Let_def tags paths
    by (cases "validate d"; cases "fixPaths (prop_js d ''paths'')") simp_all
qed

lemma validate_None_iff:
  "validate d = None \<longleftrightarrow>
     truthy (prop_js d ''openapi'') \<and> truthy (prop_js d ''info'')
     \<and> truthy (prop_js d ''paths'') \<and> typeof (prop_js d ''paths'') = ''object''
     \<and> truthy (prop_js d ''components'') \<and> typeof (prop_js d ''components'') = ''object''"
  using truthy_prop_js_object [of d "''openapi''"]
  by (auto simp: validate_def)

lemma normalize_Inr:
  assumes "normalize d = Inr (d', f, r)"
  shows "validate d = None"
    and "d' = setProp ''paths'' (fst (fixPaths (prop_js d ''paths''))) (withTags d)"
    and "(f, r) = snd (fixPaths (prop_js d ''paths''))"
  using assms by (auto simp: normalize_unfold split: option.splits)

lemma normalized_props:
  assumes "normalize d = Inr (d', f, r)"
  shows "prop_js d' ''paths'' = fst (fixPaths (prop_js d ''paths''))"
    and "isArray (prop_js d' ''tags'')"
    and "prop_js d' ''openapi'' = prop_js d ''openapi''"
    and "prop_js d' ''info'' = prop_js d ''info''"
    and "prop_js d' ''components'' = prop_js d ''components''"
proof -
  note n = normalize_Inr [OF assms]
  have obj: "typeof d = ''object''" "d \<noteq> VNull"
    using n(1) truthy_prop_js_object [of d "''openapi''"] by (auto simp: validate_None_iff)
  then have obj': "typeof (withTags d) = ''object''" "withTags d \<noteq> VNull"
    by (simp_all add: withTags_def)
  show "prop_js d' ''paths'' = fst (fixPaths (prop_js d ''paths''))"
    using obj' by (simp add: n(2) prop_js_setProp_same)
  show "isArray (prop_js d' ''tags'')"
    using obj by (simp add: n(2) prop_js_setProp_other withTags_def prop_js_setProp_same)
  show "prop_js d' ''openapi'' = prop_js d ''openapi''"
    by (simp add: n(2) prop_js_setProp_other withTags_def)
  show "prop_js d' ''info'' = prop_js d ''info''"
    by (simp add: n(2) prop_js_setProp_other withTags_def)
  show "prop_js d' ''components'' = prop_js d ''components''"
    by (simp add: n(2) prop_js_setProp_other withTags_def)
qed

lemma normalize_idem:
  assumes "normalize d = Inr (d', f, r)"
  shows "normalize d' = Inr (d', 0, 0)"
proof -
  note n = normalize_Inr [OF assms] and p = normalized_props [OF assms]
  have v: "validate d' = None"
    using n(1) by (simp add: validate_None_iff p)
  have t: "withTags d' = d'"
    using p(2) by (simp add: withTags_def)
  have "setProp ''paths'' (fst (fixPaths (prop_js d ''paths''))) d' = d'"
    by (simp add: n(2) setProp_setProp_same)
  then show ?thesis
    by (simp add: normalize_unfold v t p(1) fixPaths_idem)
qed

lemma operations_member:
  "(path, key, v) \<in> set (operations d) \<longleftrightarrow>
     (\<exists>item. (path, item) \<in> set (entries (prop_js d ''paths''))
        \<and> (key, v) \<in> set (entries item) \<and> isHttpMethod key)"
  by (force simp: operations_def)

subsection \<open>Reading back what a run wrote\<close>

lemma reparse_not_VUndefined [simp]: "reparse v \<noteq> VUndefined"
  by (cases v) simp_all

lemma reparse_VObj: "reparse (VObj kvs) = VObj (reparseEntries kvs)"
  by (simp add: reparseEntries_def)

lemma reparseEntries_Cons:
  "reparseEntries ((k, v) # kvs) =
     (if v = VUndefined then reparseEntries kvs else (k, reparse v) # reparseEntries kvs)"
  by (simp add: reparseEntries_def)

lemma reparseEntries_Nil [simp]: "reparseEntries [] = []"
  by (simp add: reparseEntries_def)

lemma isJson_not_VUndefined: "isJson v \<Longrightarrow> v \<noteq> VUndefined"
  by (cases v) simp_all

lemma reparseEntries_defined:
  "list_all (\<lambda>kv. snd kv \<noteq> VUndefined) kvs \<Longrightarrow>
   reparseEntries kvs = map (\<lambda>kv. (fst kv, reparse (snd kv))) kvs"
  by (induction kvs) (auto simp: reparseEntries_def)

lemma reparseEntries_all_defined: "list_all (\<lambda>kv. snd kv \<noteq> VUndefined) (reparseEntries kvs)"
  by (simp add: reparseEntries_def list_all_iff)

lemma reparse_reparse: "reparse (reparse v) = reparse v"
proof (induction v)
  case (VArr xs ps)
  then have "map reparse (map reparse xs) = map reparse xs"
    by simp
  then show ?case by simp
next
  case (VObj kvs)
  let ?f = "\<lambda>kv. (fst kv, reparse (snd kv))"
  let ?L = "filter (\<lambda>kv. snd kv \<noteq> VUndefined) kvs"
  have "filter (\<lambda>kv. snd kv \<noteq> VUndefined) (map ?f ?L) = map ?f ?L"
    by (intro filter_True) auto
  moreover have "map ?f (map ?f ?L) = map ?f ?L"
  proof -
    have "?f (?f kv) = ?f kv" if kv: "kv \<in> set ?L" for kv
    proof -
      have "kv \<in> set kvs" using kv by simp
      moreover have "snd kv \<in> Basic_BNFs.snds kv"
        by (cases kv) simp
      ultimately have "reparse (reparse (snd kv)) = reparse (snd kv)"
        using VObj.IH by blast
      then show ?thesis by simp
    qed
    then show ?thesis by simp
  qed
  ultimately show ?case by simp
qed simp_all

lemma reparseEntries_reparseEntries: "reparseEntries (reparseEntries kvs) = reparseEntries kvs"
  using reparse_reparse [of "VObj kvs"] by (simp add: reparse_VObj del: reparse.simps)

lemma stringifyAt_reparse: "stringifyAt ind (reparse v) = stringifyAt ind v"
proof (induction v arbitrary: ind)
  case (VArr xs ps)
  have m: "map (stringifyAt (ind @ ''  '')) (map reparse xs) = map (stringifyAt (ind @ ''  '')) xs"
    using VArr.IH by simp
  have "stringifyAt ind (reparse (VArr xs ps)) =
      (if map reparse xs = [] then ''[]''
       else ''['' @ [CHR 0x0A] @ ind @ ''  ''
            @ join ('','' @ [CHR 0x0A] @ ind @ ''  '')
                (map (stringifyAt (ind @ ''  '')) (map reparse xs))
            @ [CHR 0x0A] @ ind @ '']'')"
    unfolding reparse.simps stringifyAt.simps ..
  also have "\<dots> = stringifyAt ind (VArr xs ps)"
    unfolding m by simp
  finally show ?case .
next
  case (VObj kvs)
  let ?f = "\<lambda>kv. (fst kv, reparse (snd kv))"
  let ?L = "filter (\<lambda>kv. snd kv \<noteq> VUndefined) kvs"
  let ?p = "\<lambda>kv. quote (fst kv) @ '': '' @ stringifyAt (ind @ ''  '') (snd kv)"
  have keep: "filter (\<lambda>kv. snd kv \<noteq> VUndefined) (map ?f ?L) = map ?f ?L"
    by (intro filter_True) auto
  have same: "map ?p (map ?f ?L) = map ?p ?L"
  proof -
    have "?p (?f kv) = ?p kv" if kv: "kv \<in> set ?L" for kv
    proof -
      have "kv \<in> set kvs" using kv by simp
      moreover have "snd kv \<in> Basic_BNFs.snds kv"
        by (cases kv) simp
      ultimately have "stringifyAt (ind @ ''  '') (reparse (snd kv))
          = stringifyAt (ind @ ''  '') (snd kv)"
        using VObj.IH by blast
      then show ?thesis by simp
    qed
    then show ?thesis by simp
  qed
  have "stringifyAt ind (reparse (VObj kvs)) = stringifyAt ind (VObj (map ?f ?L))"
    by simp
  also have "\<dots> = (if map ?f ?L = [] then ''{}''
      else ''{'' @ [CHR 0x0A] @ ind @ ''  ''
           @ join ('','' @ [CHR 0x0A] @ ind @ ''  '') (map ?p (map ?f ?L))
           @ [CHR 0x0A] @ ind @ ''}'')"
    unfolding stringifyAt.simps keep ..
  also have "\<dots> = stringifyAt ind (VObj kvs)"
    unfolding same by simp
  finally show ?case .
qed (simp_all add: isFinite_def)

lemma stringify_reparse: "stringify (reparse v) = stringify v"
  by (simp add: stringify_def stringifyAt_reparse)

lemma reparse_object_shape:
  assumes "typeof v = ''object''" "v \<noteq> VNull"
  shows "typeof (reparse v) = ''object''" "reparse v \<noteq> VNull" "truthy (reparse v)"
  using assms by (cases v; simp)+

lemma isArray_reparse [simp]: "isArray (reparse v) = isArray v"
  by (cases v) simp_all

lemma isObject_reparse [simp]: "isObject (reparse v) = isObject v"
  by (cases v) simp_all

lemma arrayLength_reparse [simp]: "arrayLength (reparse v) = arrayLength v"
  by (cases v) simp_all

lemma reparse_primitive:
  "typeof v \<noteq> ''object'' \<Longrightarrow> v \<noteq> VUndefined \<Longrightarrow> \<not> nonFinite v \<Longrightarrow> reparse v = v"
  by (cases v) simp_all

lemma truthy_reparse: "truthy v \<Longrightarrow> \<not> nonFinite v \<Longrightarrow> truthy (reparse v)"
  by (cases v) simp_all

lemma reparse_setProp_array: "isArray v \<Longrightarrow> reparse (setProp k x v) = reparse v"
  by (cases v) simp_all

lemma reparse_fixOperation_array:
  "isArray v \<Longrightarrow> reparse (fst (fixOperation key path v)) = reparse v"
  by (simp add: fixOperation_def Let_def reparse_setProp_array)

lemma map_of_reparseEntries:
  "list_all (\<lambda>kv. snd kv \<noteq> VUndefined) kvs \<Longrightarrow>
   map_of (reparseEntries kvs) k = map_option reparse (map_of kvs k)"
  by (induction kvs) (auto simp: reparseEntries_Cons)

lemma prop_js_reparse:
  assumes "list_all (\<lambda>kv. snd kv \<noteq> VUndefined) kvs"
  shows "prop_js (reparse (VObj kvs)) k
           = (if prop_js (VObj kvs) k = VUndefined then VUndefined
              else reparse (prop_js (VObj kvs) k))"
  using assms map_of_reparseEntries [OF assms, of k]
  by (auto simp: reparse_VObj prop_js_def list_all_iff split: option.splits
      dest!: map_of_SomeD simp del: reparse.simps)

lemma defined_setProp:
  "list_all (\<lambda>kv. snd kv \<noteq> VUndefined) (entries v) \<Longrightarrow> isObject v \<Longrightarrow> x \<noteq> VUndefined \<Longrightarrow>
   list_all (\<lambda>kv. snd kv \<noteq> VUndefined) (entries (setProp k x v))"
  by (cases v) (simp_all add: list_all_update)

lemma defined_fixOperation:
  "list_all (\<lambda>kv. snd kv \<noteq> VUndefined) (entries v) \<Longrightarrow> isObject v \<Longrightarrow>
   list_all (\<lambda>kv. snd kv \<noteq> VUndefined) (entries (fst (fixOperation key path v)))"
  by (cases v) (simp_all add: fixOperation_def Let_def list_all_update)

lemma fixOperation_operationId_value:
  "typeof v = ''object'' \<Longrightarrow> v \<noteq> VNull \<Longrightarrow>
   prop_js (fst (fixOperation key path v)) ''operationId''
     = (if truthy (prop_js v ''operationId'') then prop_js v ''operationId''
        else VStr (operationId key path))"
  by (simp add: fixOperation_def Let_def prop_js_setProp_other prop_js_setProp_same)

lemma isObject_fixOperation [simp]: "isObject (fst (fixOperation key path v)) = isObject v"
  by (cases v) (simp_all add: fixOperation_def Let_def)

lemma fixOperation_written_object:
  assumes "isJson v" "isObject v" "isHttpMethod key" "finiteOperation v"
  shows "hasTags (reparse (fst (fixOperation key path v)))"
    and "truthy (prop_js (reparse (fst (fixOperation key path v))) ''operationId'')"
proof -
  let ?v' = "fst (fixOperation key path v)"
  obtain kvs where v: "v = VObj kvs"
    using assms(2) by (cases v) simp_all
  have obj: "typeof v = ''object''" "v \<noteq> VNull"
    by (simp_all add: v)
  obtain kvs' where v': "?v' = VObj kvs'"
    using assms(2) isObject_fixOperation [of key path v] by (cases ?v') simp_all
  have "list_all (\<lambda>kv. snd kv \<noteq> VUndefined) (entries v)"
    using assms(1) by (auto simp: v list_all_iff dest: isJson_not_VUndefined)
  then have "list_all (\<lambda>kv. snd kv \<noteq> VUndefined) (entries ?v')"
    using assms(2) by (rule defined_fixOperation)
  then have d: "list_all (\<lambda>kv. snd kv \<noteq> VUndefined) kvs'"
    by (simp add: v')
  note look = prop_js_reparse [OF d, folded v']
  note good = fixOperation_good [OF obj assms(3), of path]
  have t: "isArray (prop_js ?v' ''tags'')" "0 < arrayLength (prop_js ?v' ''tags'')"
    using good(1) by (simp_all add: hasTags_def)
  then have "prop_js ?v' ''tags'' \<noteq> VUndefined"
    by auto
  then show "hasTags (reparse ?v')"
    using t by (simp add: hasTags_def look)
  have "\<not> nonFinite (prop_js ?v' ''operationId'')"
    using assms(4) by (simp add: fixOperation_operationId_value [OF obj] finiteOperation_def)
  then have "truthy (reparse (prop_js ?v' ''operationId''))"
    using good(2) by (intro truthy_reparse)
  moreover have "prop_js ?v' ''operationId'' \<noteq> VUndefined"
    using good(2) by auto
  ultimately show "truthy (prop_js (reparse ?v') ''operationId'')"
    by (simp add: look)
qed

lemma fixOperation_reread_object:
  assumes "isJson v" "isObject v" "isHttpMethod key" "finiteOperation v"
  shows "fixOperation key path (reparse (fst (fixOperation key path v)))
           = (reparse (fst (fixOperation key path v)), 0)"
  using fixOperation_written_object [OF assms, of path]
  by (simp add: fixOperation_def [of key path "reparse (fst (fixOperation key path v))"]
      Let_def noTags_iff hasTags_def)

lemma fixOperation_reread:
  assumes "isJson v" "typeof v = ''object''" "v \<noteq> VNull" "isHttpMethod key"
    "finiteOperation v"
  shows "reparse (fst (fixOperation key path (reparse (fst (fixOperation key path v)))))
           = reparse (fst (fixOperation key path v))"
    and "\<not> isArray v \<Longrightarrow>
         snd (fixOperation key path (reparse (fst (fixOperation key path v)))) = 0"
proof -
  let ?v' = "fst (fixOperation key path v)"
  have object: "isObject v" if "\<not> isArray v"
    using that assms(2,3) by (cases v) simp_all
  show "reparse (fst (fixOperation key path (reparse ?v'))) = reparse ?v'"
  proof (cases "isArray v")
    case True
    then have "isArray (reparse ?v')"
      by (simp add: fixOperation_def Let_def)
    then have "reparse (fst (fixOperation key path (reparse ?v'))) = reparse (reparse ?v')"
      by (rule reparse_fixOperation_array)
    then show ?thesis
      by (simp add: reparse_reparse)
  next
    case False
    then show ?thesis
      using fixOperation_reread_object [OF assms(1) object assms(4,5), of path]
      by (simp add: reparse_reparse)
  qed
  show "snd (fixOperation key path (reparse ?v')) = 0" if "\<not> isArray v"
    using fixOperation_reread_object [OF assms(1) object [OF that] assms(4,5), of path]
    by simp
qed

lemma fst_fixEntries_Cons:
  "fst (fixEntries path ((key, v) # rest)) =
     (if isHttpMethod key then
        if v = VNull \<or> v = VUndefined then fst (fixEntries path rest)
        else if typeof v \<noteq> ''object'' then (key, v) # fst (fixEntries path rest)
        else (key, fst (fixOperation key path v)) # fst (fixEntries path rest)
      else (key, v) # fst (fixEntries path rest))"
  by (cases "fixEntries path rest"; cases "fixOperation key path v") simp

lemma fixed_fixEntries_Cons:
  "fst (snd (fixEntries path ((key, v) # rest))) =
     (if isHttpMethod key \<and> v \<noteq> VNull \<and> v \<noteq> VUndefined \<and> typeof v = ''object''
      then snd (fixOperation key path v) + fst (snd (fixEntries path rest))
      else fst (snd (fixEntries path rest)))"
  by (cases "fixEntries path rest"; cases "fixOperation key path v") simp

lemma removed_fixEntries_Cons:
  "snd (snd (fixEntries path ((key, v) # rest))) =
     (if isHttpMethod key \<and> (v = VNull \<or> v = VUndefined)
      then Suc (snd (snd (fixEntries path rest)))
      else snd (snd (fixEntries path rest)))"
  by (cases "fixEntries path rest"; cases "fixOperation key path v") simp

lemma fixEntries_reread:
  assumes "list_all (\<lambda>e. isJson (snd e)) kvs"
    and "list_all (\<lambda>e. isHttpMethod (fst e) \<longrightarrow> finiteOperation (snd e)) kvs"
  shows "reparseEntries (fst (fixEntries path (reparseEntries (fst (fixEntries path kvs)))))
           = reparseEntries (fst (fixEntries path kvs))
       \<and> snd (snd (fixEntries path (reparseEntries (fst (fixEntries path kvs))))) = 0
       \<and> (list_all (\<lambda>e. \<not> (isHttpMethod (fst e) \<and> isArray (snd e))) kvs \<longrightarrow>
            fst (snd (fixEntries path (reparseEntries (fst (fixEntries path kvs))))) = 0)"
  using assms
proof (induction kvs)
  case Nil
  show ?case by simp
next
  case (Cons e kvs)
  obtain key v where e: "e = (key, v)" by (cases e)
  let ?R = "fst (fixEntries path kvs)"
  let ?S = "fixEntries path (reparseEntries ?R)"
  have j: "isJson v" and v: "v \<noteq> VUndefined"
    using Cons.prems e by (simp_all add: isJson_not_VUndefined)
  have IH: "reparseEntries (fst ?S) = reparseEntries ?R" "snd (snd ?S) = 0"
    "list_all (\<lambda>e. \<not> (isHttpMethod (fst e) \<and> isArray (snd e))) kvs \<longrightarrow> fst (snd ?S) = 0"
    using Cons by simp_all
  consider (other) "\<not> isHttpMethod key"
    | (null) "isHttpMethod key" "v = VNull"
    | (skipped) "isHttpMethod key" "v \<noteq> VNull" "typeof v \<noteq> ''object''"
    | (operation) "isHttpMethod key" "v \<noteq> VNull" "typeof v = ''object''"
    by blast
  then show ?case
  proof cases
    case other
    have first: "fst (fixEntries path (e # kvs)) = (key, v) # ?R"
      using other by (simp add: e fst_fixEntries_Cons del: fixEntries.simps)
    have rb: "reparseEntries ((key, v) # ?R) = (key, reparse v) # reparseEntries ?R"
      using v by (simp add: reparseEntries_Cons)
    show ?thesis
      unfolding first rb
      using other IH
      by (simp add: e fst_fixEntries_Cons removed_fixEntries_Cons fixed_fixEntries_Cons
          reparseEntries_Cons reparse_reparse del: fixEntries.simps)
  next
    case null
    have first: "fst (fixEntries path (e # kvs)) = ?R"
      using null by (simp add: e fst_fixEntries_Cons del: fixEntries.simps)
    show ?thesis
      unfolding first using IH by (simp add: e)
  next
    case skipped
    have "finiteOperation v"
      using Cons.prems(2) skipped(1) by (simp add: e)
    then have same: "reparse v = v"
      using skipped(3) v by (intro reparse_primitive) (simp_all add: finiteOperation_def)
    have first: "fst (fixEntries path (e # kvs)) = (key, v) # ?R"
      using skipped v by (simp add: e fst_fixEntries_Cons del: fixEntries.simps)
    have rb: "reparseEntries ((key, v) # ?R) = (key, v) # reparseEntries ?R"
      using v same by (simp add: reparseEntries_Cons)
    show ?thesis
      unfolding first rb
      using skipped v same IH
      by (simp add: e fst_fixEntries_Cons removed_fixEntries_Cons fixed_fixEntries_Cons
          reparseEntries_Cons del: fixEntries.simps)
  next
    case operation
    let ?v' = "fst (fixOperation key path v)"
    have fin: "finiteOperation v"
      using Cons.prems(2) operation(1) by (simp add: e)
    have shape: "typeof (reparse ?v') = ''object''" "reparse ?v' \<noteq> VNull"
      using operation by (simp_all add: reparse_object_shape)
    note again = fixOperation_reread [OF j operation(3,2,1) fin, of path]
    have first: "fst (fixEntries path (e # kvs)) = (key, ?v') # ?R"
      using operation v by (simp add: e fst_fixEntries_Cons del: fixEntries.simps)
    have rb: "reparseEntries ((key, ?v') # ?R) = (key, reparse ?v') # reparseEntries ?R"
      using v by (simp add: reparseEntries_Cons)
    show ?thesis
      unfolding first rb
      using operation(1) shape again IH
      by (simp add: e fst_fixEntries_Cons removed_fixEntries_Cons fixed_fixEntries_Cons
          reparseEntries_Cons del: fixEntries.simps)
  qed
qed

lemma fixPathItem_eq_VUndefined [simp]:
  "fst (fixPathItem path item) = VUndefined \<longleftrightarrow> item = VUndefined"
  by (cases item) (simp_all add: fst_fixPathItem del: fixPathItem.simps(1,2))

text \<open>The conditions on the entries of a path item.\<close>

lemma fixPathItem_reread:
  assumes "isJson item"
    and "list_all (\<lambda>e. isHttpMethod (fst e) \<longrightarrow> finiteOperation (snd e)) (entries item)"
  shows "reparse (fst (fixPathItem path (reparse (fst (fixPathItem path item)))))
           = reparse (fst (fixPathItem path item))
       \<and> snd (snd (fixPathItem path (reparse (fst (fixPathItem path item))))) = 0
       \<and> (list_all (\<lambda>e. \<not> (isHttpMethod (fst e) \<and> isArray (snd e))) (entries item) \<longrightarrow>
            fst (snd (fixPathItem path (reparse (fst (fixPathItem path item))))) = 0)"
proof (cases item)
  case (VObj kvs)
  then show ?thesis
    using assms fixEntries_reread [of kvs path]
    by (simp add: fst_fixPathItem snd_fixPathItem reparse_VObj
        del: fixPathItem.simps(1,2) reparse.simps)
next
  case (VArr xs ps)
  then have ps: "ps = []"
    using assms(1) by simp
  have "reparse (reparse (VArr xs [])) = reparse (VArr xs [])"
    by (rule reparse_reparse)
  then show ?thesis
    by (simp add: VArr ps)
qed (simp_all add: reparse_reparse [of "VNum n" for n, simplified])

lemma fixPathEntries_defined:
  "list_all (\<lambda>pe. snd pe \<noteq> VUndefined) kvs \<Longrightarrow>
   list_all (\<lambda>pe. snd pe \<noteq> VUndefined) (fst (fixPathEntries kvs))"
proof (induction kvs)
  case Nil
  show ?case by simp
next
  case (Cons pe kvs)
  obtain path item where pe: "pe = (path, item)" by (cases pe)
  show ?case
    using Cons by (simp add: pe fst_fixPathEntries_Cons del: fixPathEntries.simps)
qed

lemma fixPathEntries_reread:
  assumes "list_all (\<lambda>pe. isJson (snd pe)) kvs"
    and "list_all (\<lambda>pe. list_all (\<lambda>e. isHttpMethod (fst e) \<longrightarrow> finiteOperation (snd e))
           (entries (snd pe))) kvs"
  shows "reparseEntries (fst (fixPathEntries (reparseEntries (fst (fixPathEntries kvs)))))
           = reparseEntries (fst (fixPathEntries kvs))
       \<and> snd (snd (fixPathEntries (reparseEntries (fst (fixPathEntries kvs))))) = 0
       \<and> (list_all (\<lambda>pe. list_all (\<lambda>e. \<not> (isHttpMethod (fst e) \<and> isArray (snd e)))
             (entries (snd pe))) kvs \<longrightarrow>
            fst (snd (fixPathEntries (reparseEntries (fst (fixPathEntries kvs))))) = 0)"
  using assms
proof (induction kvs)
  case Nil
  show ?case by simp
next
  case (Cons pe kvs)
  obtain path item where pe: "pe = (path, item)" by (cases pe)
  have j: "isJson item" and u: "item \<noteq> VUndefined"
    and fin: "list_all (\<lambda>e. isHttpMethod (fst e) \<longrightarrow> finiteOperation (snd e)) (entries item)"
    using Cons.prems pe by (simp_all add: isJson_not_VUndefined)
  let ?i' = "fst (fixPathItem path item)"
  let ?R = "fst (fixPathEntries kvs)"
  have first: "fst (fixPathEntries (pe # kvs)) = (path, ?i') # ?R"
    by (simp add: pe fst_fixPathEntries_Cons del: fixPathEntries.simps)
  have rb: "reparseEntries ((path, ?i') # ?R) = (path, reparse ?i') # reparseEntries ?R"
    using u by (simp add: reparseEntries_Cons)
  show ?case
    unfolding first rb
    using Cons fixPathItem_reread [OF j fin, of path]
    by (simp add: pe fst_fixPathEntries_Cons snd_fixPathEntries_Cons reparseEntries_Cons
        del: fixPathEntries.simps)
qed

lemma zip_reparse:
  "zip (map fst kvs) (map reparse (map snd kvs)) = map (\<lambda>kv. (fst kv, reparse (snd kv))) kvs"
  by (induction kvs) simp_all

lemma map_snd_reparseEntries:
  "list_all (\<lambda>kv. snd kv \<noteq> VUndefined) kvs \<Longrightarrow>
   map snd (reparseEntries kvs) = map reparse (map snd kvs)"
  by (simp add: reparseEntries_defined comp_def)

lemma fixPaths_reread:
  assumes "isJson paths"
    and "list_all (\<lambda>pe. list_all (\<lambda>e. isHttpMethod (fst e) \<longrightarrow> finiteOperation (snd e))
           (entries (snd pe))) (entries paths)"
  shows "reparse (fst (fixPaths (reparse (fst (fixPaths paths))))) = reparse (fst (fixPaths paths))
       \<and> snd (snd (fixPaths (reparse (fst (fixPaths paths))))) = 0
       \<and> (list_all (\<lambda>pe. list_all (\<lambda>e. \<not> (isHttpMethod (fst e) \<and> isArray (snd e)))
             (entries (snd pe))) (entries paths) \<longrightarrow>
            fst (snd (fixPaths (reparse (fst (fixPaths paths))))) = 0)"
proof (cases paths)
  case (VObj kvs)
  then show ?thesis
    using assms fixPathEntries_reread [of kvs]
    by (simp add: fst_fixPaths snd_fixPaths reparse_VObj del: fixPaths.simps(1,2) reparse.simps)
next
  case (VArr xs ps)
  let ?zs = "zip (map showNat [0..<length xs]) xs"
  let ?ixs = "fst (fixPathEntries ?zs)"
  let ?W = "fst (fixPathEntries (reparseEntries ?ixs))"
  have ps: "ps = []" and xs: "list_all isJson xs"
    using assms(1) VArr by simp_all
  have j: "list_all (\<lambda>pe. isJson (snd pe)) ?zs"
    using xs by (simp add: list_all_snd_zip)
  have fin: "list_all (\<lambda>pe. list_all (\<lambda>e. isHttpMethod (fst e) \<longrightarrow> finiteOperation (snd e))
           (entries (snd pe))) ?zs"
    using assms(2) by (simp add: VArr ps)
  have "list_all (\<lambda>pe. snd pe \<noteq> VUndefined) ?zs"
    using j by (auto simp: list_all_iff dest: isJson_not_VUndefined)
  then have d: "list_all (\<lambda>pe. snd pe \<noteq> VUndefined) ?ixs"
    by (rule fixPathEntries_defined)
  have dW: "list_all (\<lambda>pe. snd pe \<noteq> VUndefined) ?W"
    by (intro fixPathEntries_defined reparseEntries_all_defined)
  have keys: "map fst ?ixs = map showNat [0..<length xs]"
    by (simp add: fixPathEntries_keys)
  have len: "length ?ixs = length xs"
    by (simp add: fixPathEntries_length)
  have first: "fst (fixPaths paths) = VArr (map snd ?ixs) []"
    by (simp add: VArr ps fst_fixPaths del: fixPaths.simps(1,2))
  have "zip (map showNat [0..<length (map reparse (map snd ?ixs))]) (map reparse (map snd ?ixs))
      = zip (map fst ?ixs) (map reparse (map snd ?ixs))"
    by (simp add: keys len)
  also have "\<dots> = reparseEntries ?ixs"
    by (simp only: zip_reparse reparseEntries_defined [OF d])
  finally have z: "zip (map showNat [0..<length (map reparse (map snd ?ixs))])
      (map reparse (map snd ?ixs)) = reparseEntries ?ixs" .
  have rb: "reparse (VArr (map snd ?ixs) []) = VArr (map reparse (map snd ?ixs)) []"
    by simp
  have second: "fst (fixPaths (VArr (map reparse (map snd ?ixs)) [])) = VArr (map snd ?W) []"
    "snd (fixPaths (VArr (map reparse (map snd ?ixs)) []))
       = (fst (snd (fixPathEntries (reparseEntries ?ixs))),
          snd (snd (fixPathEntries (reparseEntries ?ixs))))"
    unfolding fst_fixPaths snd_fixPaths z by simp_all
  note again = fixPathEntries_reread [OF j fin]
  have "map reparse (map snd ?W) = map snd (reparseEntries ?W)"
    using dW by (simp only: map_snd_reparseEntries)
  also have "\<dots> = map snd (reparseEntries ?ixs)"
    using again by simp
  also have "\<dots> = map reparse (map snd ?ixs)"
    using d by (simp only: map_snd_reparseEntries)
  finally have same: "map reparse (map snd ?W) = map reparse (map snd ?ixs)" .
  have noarr: "list_all (\<lambda>pe. list_all (\<lambda>e. \<not> (isHttpMethod (fst e) \<and> isArray (snd e)))
         (entries (snd pe))) (entries paths)
     = list_all (\<lambda>pe. list_all (\<lambda>e. \<not> (isHttpMethod (fst e) \<and> isArray (snd e)))
         (entries (snd pe))) ?zs"
    by (simp add: VArr ps)
  have one: "reparse (fst (fixPaths (reparse (fst (fixPaths paths)))))
      = reparse (fst (fixPaths paths))"
    unfolding first rb second(1) using same by (simp del: map_map)
  have two: "snd (snd (fixPaths (reparse (fst (fixPaths paths))))) = 0"
    unfolding first rb second(2) using again by simp
  have three: "fst (snd (fixPaths (reparse (fst (fixPaths paths))))) = 0"
    if "list_all (\<lambda>pe. list_all (\<lambda>e. \<not> (isHttpMethod (fst e) \<and> isArray (snd e)))
         (entries (snd pe))) (entries paths)"
    unfolding first rb second(2) using again that [unfolded noarr] by simp
  show ?thesis
    using one two three by blast
qed (simp_all add: reparse_reparse [of "VNum n" for n, simplified])

lemma reparseEntries_update:
  assumes "list_all (\<lambda>kv. snd kv \<noteq> VUndefined) kvs" "x \<noteq> VUndefined"
    and "map_of kvs k = Some p" "reparse x = reparse p"
  shows "reparseEntries (AList.update k x (reparseEntries kvs)) = reparseEntries kvs"
  using assms(1,3)
proof (induction kvs)
  case Nil
  then show ?case by simp
next
  case (Cons e kvs)
  obtain a y where e: "e = (a, y)" by (cases e)
  have y: "y \<noteq> VUndefined"
    using Cons.prems(1) e by simp
  show ?case
  proof (cases "a = k")
    case True
    then have "p = y"
      using Cons.prems(2) e by simp
    then show ?thesis
      using True y assms(2,4)
      by (simp add: e reparseEntries_Cons reparseEntries_reparseEntries)
  next
    case False
    then have "map_of kvs k = Some p"
      using Cons.prems(2) e by simp
    then show ?thesis
      using False y Cons
      by (simp add: e reparseEntries_Cons reparse_reparse)
  qed
qed

lemma operations_all:
  "list_all (\<lambda>op. Q (snd (snd op))) (operations d) \<longleftrightarrow>
     list_all (\<lambda>pe. list_all (\<lambda>e. isHttpMethod (fst e) \<longrightarrow> Q (snd e))
        (entries (snd pe))) (entries (prop_js d ''paths''))"
proof -
  have "(\<forall>op \<in> set (operations d). Q (snd (snd op))) \<longleftrightarrow>
        (\<forall>path key v. (path, key, v) \<in> set (operations d) \<longrightarrow> Q v)"
    by auto
  also have "\<dots> \<longleftrightarrow> (\<forall>pe \<in> set (entries (prop_js d ''paths'')).
        \<forall>e \<in> set (entries (snd pe)). isHttpMethod (fst e) \<longrightarrow> Q (snd e))"
    unfolding operations_member by fastforce
  finally show ?thesis
    by (simp add: list_all_iff)
qed

lemma noArrayOperations_iff:
  "noArrayOperations d \<longleftrightarrow>
     list_all (\<lambda>pe. list_all (\<lambda>e. \<not> (isHttpMethod (fst e) \<and> isArray (snd e)))
        (entries (snd pe))) (entries (prop_js d ''paths''))"
  unfolding noArrayOperations_def operations_all [of "\<lambda>v. \<not> isArray v"]
  by (simp add: list_all_iff)

lemma second_normalize:
  assumes "isJson d" "finiteWhereRead d" "normalize d = Inr (d', f, r)"
  shows "\<exists>d'' f2. normalize (reparse d') = Inr (d'', f2, 0) \<and> reparse d'' = reparse d'
           \<and> (noArrayOperations d \<longrightarrow> f2 = 0)"
proof -
  note n = normalize_Inr [OF assms(3)] and p = normalized_props [OF assms(3)]
  let ?P = "prop_js d ''paths''"
  let ?P' = "fst (fixPaths ?P)"
  let ?P'' = "fst (fixPaths (reparse ?P'))"
  have valid: "truthy (prop_js d ''openapi'')" "truthy (prop_js d ''info'')"
    "truthy ?P" "typeof ?P = ''object''"
    "truthy (prop_js d ''components'')" "typeof (prop_js d ''components'') = ''object''"
    using n(1) by (simp_all add: validate_None_iff)
  have fin: "\<not> nonFinite (prop_js d ''openapi'')" "\<not> nonFinite (prop_js d ''info'')"
    and ops: "list_all (\<lambda>pe. list_all (\<lambda>e. isHttpMethod (fst e) \<longrightarrow> finiteOperation (snd e))
        (entries (snd pe))) (entries ?P)"
    using assms(2) by (simp_all add: finiteWhereRead_def finiteOperations_def operations_all)
  obtain kvs where d: "d = VObj kvs"
    using assms(1) valid(1) by (cases d) (simp_all add: prop_js_def)
  have jP: "isJson ?P"
    using assms(1) valid(3) by (intro isJson_prop_js) auto
  have P': "?P' \<noteq> VUndefined" "?P' \<noteq> VNull" "typeof ?P' = ''object''"
    using valid(3,4) by (cases ?P; simp add: fst_fixPaths del: fixPaths.simps(1,2))+
  have "\<exists>kvs1. withTags d = VObj kvs1 \<and> list_all (\<lambda>kv. isJson (snd kv)) kvs1"
    using assms(1) by (cases "isArray (prop_js d ''tags'')") (simp_all add: withTags_def d list_all_update)
  then obtain kvs1 where w: "withTags d = VObj kvs1"
    and j1: "list_all (\<lambda>kv. isJson (snd kv)) kvs1"
    by blast
  let ?kvs' = "AList.update ''paths'' ?P' kvs1"
  have d': "d' = VObj ?kvs'"
    by (simp add: n(2) w)
  have "list_all (\<lambda>kv. snd kv \<noteq> VUndefined) kvs1"
    using j1 by (auto simp: list_all_iff dest: isJson_not_VUndefined)
  then have def': "list_all (\<lambda>kv. snd kv \<noteq> VUndefined) ?kvs'"
    using P'(1) by (simp add: list_all_update)
  note look = prop_js_reparse [OF def', folded d']
  have keep: "truthy (prop_js (reparse d') k)"
    if "prop_js d' k = prop_js d k" "truthy (prop_js d k)" "\<not> nonFinite (prop_js d k)" for k
  proof -
    have "prop_js d k \<noteq> VUndefined" using that(2) by auto
    then show ?thesis
      using that by (simp add: look truthy_reparse)
  qed
  have object: "truthy (prop_js (reparse d') k) \<and> typeof (prop_js (reparse d') k) = ''object''"
    if "truthy (prop_js d' k)" "typeof (prop_js d' k) = ''object''" for k
  proof -
    have "prop_js d' k \<noteq> VUndefined" "prop_js d' k \<noteq> VNull" using that(1) by auto
    then show ?thesis
      using that(2) by (simp add: look reparse_object_shape)
  qed
  have paths2: "prop_js (reparse d') ''paths'' = reparse ?P'"
    using P'(1) by (simp add: look p(1))
  have tags2: "isArray (prop_js (reparse d') ''tags'')"
    using p(2) by (cases "prop_js d' ''tags''") (simp_all add: look)
  have v2: "validate (reparse d') = None"
    using valid fin keep [of "''openapi''"] keep [of "''info''"] object [of "''components''"]
      object [of "''paths''"] p
    by (simp add: validate_None_iff)
  have t2: "withTags (reparse d') = reparse d'"
    using tags2 by (simp add: withTags_def)
  note again = fixPaths_reread [OF jP ops]
  have u: "?P'' \<noteq> VUndefined"
    by (cases "reparse ?P'") (simp_all add: fst_fixPaths del: fixPaths.simps(1,2))
  have m: "map_of ?kvs' ''paths'' = Some ?P'"
    by (simp add: update_conv')
  have "reparse (setProp ''paths'' ?P'' (reparse d')) = reparse d'"
    using reparseEntries_update [OF def' u m] again
    by (simp add: d' reparse_VObj del: reparse.simps)
  moreover have "normalize (reparse d')
      = Inr (setProp ''paths'' ?P'' (reparse d'), snd (fixPaths (reparse ?P')))"
    by (simp add: normalize_unfold v2 t2 paths2)
  ultimately show ?thesis
    using again by (auto simp: prod_eq_iff noArrayOperations_iff)
qed

subsection \<open>Where an entry goes\<close>

lemma fixOperation_operationId:
  assumes "typeof v = ''object''" "v \<noteq> VNull" "\<not> truthy (prop_js v ''operationId'')"
  shows "prop_js (fst (fixOperation key path v)) ''operationId'' = VStr (operationId key path)"
  using assms
  by (simp add: fixOperation_def Let_def prop_js_setProp_other prop_js_setProp_same)

lemma fixEntries_member:
  assumes "(key, v) \<in> set kvs" "isHttpMethod key" "typeof v = ''object''" "v \<noteq> VNull"
  shows "(key, fst (fixOperation key path v)) \<in> set (fst (fixEntries path kvs))"
  using assms(1)
proof (induction kvs)
  case Nil
  then show ?case by simp
next
  case (Cons e kvs)
  obtain k x where e: "e = (k, x)" by (cases e)
  obtain rest' f r where rest: "fixEntries path kvs = (rest', f, r)" by (cases "fixEntries path kvs")
  obtain x' n where op: "fixOperation k path x = (x', n)" by (cases "fixOperation k path x")
  show ?case
  proof (cases "(key, v) = e")
    case True
    then show ?thesis
      using assms(2-4) e rest op by auto
  next
    case False
    then have "(key, fst (fixOperation key path v)) \<in> set rest'"
      using Cons rest by simp
    then show ?thesis
      using e rest op by auto
  qed
qed

lemma entries_fixPathItem_member:
  assumes "(key, v) \<in> set (entries item)" "isHttpMethod key" "typeof v = ''object''" "v \<noteq> VNull"
  shows "(key, fst (fixOperation key path v)) \<in> set (entries (fst (fixPathItem path item)))"
proof (cases item)
  case (VObj kvs)
  then show ?thesis
    using assms fixEntries_member [of key v kvs path]
    by (simp add: fst_fixPathItem del: fixPathItem.simps(1,2))
next
  case (VArr xs ps)
  have "(key, v) \<notin> set (zip (map showNat [0..<length xs]) xs)"
    using assms(2) not_isHttpMethod_showNat by (auto dest!: set_zip_leftD)
  then have "(key, v) \<in> set ps"
    using assms(1) VArr by simp
  then show ?thesis
    using assms VArr fixEntries_member [of key v ps path]
    by (simp add: fst_fixPathItem del: fixPathItem.simps(1,2))
qed (use assms in simp_all)

lemma fixPathEntries_member:
  "(path, item) \<in> set kvs \<Longrightarrow>
   (path, fst (fixPathItem path item)) \<in> set (fst (fixPathEntries kvs))"
proof (induction kvs)
  case Nil
  then show ?case by simp
next
  case (Cons pe kvs)
  obtain p i where pe: "pe = (p, i)" by (cases pe)
  show ?case
    using Cons by (auto simp: pe fst_fixPathEntries_Cons simp del: fixPathEntries.simps)
qed

lemma entries_fixPaths:
  "entries (fst (fixPaths (VObj kvs))) = fst (fixPathEntries kvs)"
  "entries (fst (fixPaths (VArr xs ps)))
     = fst (fixPathEntries (zip (map showNat [0..<length xs]) xs)) @ fst (fixPathEntries ps)"
proof -
  show "entries (fst (fixPaths (VObj kvs))) = fst (fixPathEntries kvs)"
    by (simp add: fst_fixPaths del: fixPaths.simps(1,2))
  let ?ixs = "fst (fixPathEntries (zip (map showNat [0..<length xs]) xs))"
  have "map fst ?ixs = map showNat [0..<length xs]"
    by (simp add: fixPathEntries_keys)
  moreover have "length ?ixs = length xs"
    by (simp add: fixPathEntries_length)
  ultimately have "zip (map showNat [0..<length (map snd ?ixs)]) (map snd ?ixs) = ?ixs"
    by (metis length_map zip_map_fst_snd)
  then show "entries (fst (fixPaths (VArr xs ps))) = ?ixs @ fst (fixPathEntries ps)"
    by (simp add: fst_fixPaths del: fixPaths.simps(1,2))
qed

lemma entries_fixPaths_member:
  assumes "(path, item) \<in> set (entries paths)"
  shows "(path, fst (fixPathItem path item)) \<in> set (entries (fst (fixPaths paths)))"
proof (cases paths)
  case (VObj kvs)
  then show ?thesis
    using assms fixPathEntries_member [of path item kvs]
    by (simp add: entries_fixPaths del: fixPaths.simps(1,2))
next
  case (VArr xs ps)
  then show ?thesis
    using assms fixPathEntries_member [of path item "zip (map showNat [0..<length xs]) xs"]
      fixPathEntries_member [of path item ps]
    by (auto simp: entries_fixPaths simp del: fixPaths.simps(1,2))
qed (use assms in simp_all)

subsection \<open>What normalization keeps\<close>

lemma fixEntries_member_skipped:
  assumes "(key, v) \<in> set kvs" "typeof v \<noteq> ''object''" "v \<noteq> VUndefined"
  shows "(key, v) \<in> set (fst (fixEntries path kvs))"
  using assms(1)
proof (induction kvs)
  case Nil
  then show ?case by simp
next
  case (Cons e kvs)
  obtain k x where e: "e = (k, x)" by (cases e)
  have null: "v \<noteq> VNull"
    using assms(2) by auto
  show ?case
  proof (cases "(key, v) = e")
    case True
    then show ?thesis
      using assms(2,3) null e by (simp add: fst_fixEntries_Cons del: fixEntries.simps)
  next
    case False
    then have "(key, v) \<in> set (fst (fixEntries path kvs))"
      using Cons by simp
    then show ?thesis
      by (simp add: e fst_fixEntries_Cons del: fixEntries.simps)
  qed
qed

lemma entries_fixPathItem_member_skipped:
  assumes "(key, v) \<in> set (entries item)" "typeof v \<noteq> ''object''" "v \<noteq> VUndefined"
  shows "(key, v) \<in> set (entries (fst (fixPathItem path item)))"
proof (cases item)
  case (VObj kvs)
  then show ?thesis
    using assms fixEntries_member_skipped [of key v kvs path]
    by (simp add: fst_fixPathItem del: fixPathItem.simps(1,2))
next
  case (VArr xs ps)
  then show ?thesis
    using assms fixEntries_member_skipped [of key v ps path]
    by (auto simp: fst_fixPathItem simp del: fixPathItem.simps(1,2))
qed (use assms in simp_all)

lemma fixOperation_keeps_operationId:
  "truthy (prop_js v ''operationId'') \<Longrightarrow>
   prop_js (fst (fixOperation key path v)) ''operationId'' = prop_js v ''operationId''"
  by (simp add: fixOperation_def Let_def prop_js_setProp_other)

subsection \<open>What the written file holds\<close>

lemma entries_reparse_member:
  assumes "(k, y) \<in> set (entries (reparse x))"
  shows "\<exists>v. (k, v) \<in> set (entries x) \<and> y = reparse v"
proof (cases x)
  case (VObj kvs)
  then show ?thesis
    using assms by (auto simp: reparseEntries_def)
next
  case (VArr xs ps)
  then have "(k, y) \<in> set (zip (map showNat [0..<length xs]) (map reparse xs))"
    using assms by simp
  then obtain i v where i: "(i, v) \<in> set (zip [0..<length xs] xs)" "k = showNat i" "y = reparse v"
    by (auto simp: zip_map_map)
  then have "(k, v) \<in> set (zip (map showNat [0..<length xs]) xs)"
    by (force simp: zip_map1)
  with i(3) VArr show ?thesis
    by auto
next
  case (VNum n)
  then show ?thesis
    using assms by (cases "isFinite n") simp_all
qed (use assms in simp_all)

lemma fixOperation_written:
  assumes "isJson v" "typeof v = ''object''" "v \<noteq> VNull" "isHttpMethod key"
    "finiteOperation v"
  shows "repairedWhenWritten (fst (fixOperation key path v))"
proof -
  have "reparse (fst (fixOperation key path v)) \<noteq> VNull"
    using assms(2,3) by (simp add: reparse_object_shape)
  then show ?thesis
    using fixOperation_written_object [OF assms(1) _ assms(4,5), of path]
    by (simp add: repairedWhenWritten_def)
qed

lemma fixEntries_written:
  assumes "list_all (\<lambda>e. isJson (snd e)) kvs"
    and "list_all (\<lambda>e. isHttpMethod (fst e) \<longrightarrow> finiteOperation (snd e)) kvs"
  shows "list_all (\<lambda>e. isHttpMethod (fst e) \<longrightarrow> repairedWhenWritten (snd e))
           (fst (fixEntries path kvs))"
  using assms
proof (induction kvs)
  case Nil
  show ?case by simp
next
  case (Cons e kvs)
  obtain key v where e: "e = (key, v)" by (cases e)
  have j: "isJson v" and v: "v \<noteq> VUndefined"
    using Cons.prems e by (simp_all add: isJson_not_VUndefined)
  have IH: "list_all (\<lambda>e. isHttpMethod (fst e) \<longrightarrow> repairedWhenWritten (snd e))
      (fst (fixEntries path kvs))"
    using Cons by simp
  have skipped: "repairedWhenWritten v"
    if "isHttpMethod key" "typeof v \<noteq> ''object''"
  proof -
    have "finiteOperation v"
      using Cons.prems(2) that(1) by (simp add: e)
    then have "reparse v = v"
      using that(2) v by (intro reparse_primitive) (simp_all add: finiteOperation_def)
    moreover have "v \<noteq> VNull" "\<not> isObject v"
      using that(2) by (cases v; simp)+
    ultimately show ?thesis
      by (simp add: repairedWhenWritten_def)
  qed
  have operation: "repairedWhenWritten (fst (fixOperation key path v))"
    if "isHttpMethod key" "typeof v = ''object''" "v \<noteq> VNull"
  proof -
    have "finiteOperation v"
      using Cons.prems(2) that(1) by (simp add: e)
    with j that show ?thesis
      by (intro fixOperation_written)
  qed
  show ?case
    using IH skipped operation
    by (simp add: e fst_fixEntries_Cons del: fixEntries.simps)
qed

lemma fixPathItem_written:
  assumes "isJson item"
    and "list_all (\<lambda>e. isHttpMethod (fst e) \<longrightarrow> finiteOperation (snd e)) (entries item)"
  shows "list_all (\<lambda>e. isHttpMethod (fst e) \<longrightarrow> repairedWhenWritten (snd e))
           (entries (fst (fixPathItem path item)))"
proof (cases item)
  case (VObj kvs)
  then show ?thesis
    using assms fixEntries_written [of kvs path]
    by (simp add: fst_fixPathItem del: fixPathItem.simps(1,2))
next
  case (VArr xs ps)
  then show ?thesis
    using assms(1) by (simp add: list_all_index_entries)
qed simp_all

lemma fixPathEntries_written:
  assumes "list_all (\<lambda>pe. isJson (snd pe)) kvs"
    and "list_all (\<lambda>pe. list_all (\<lambda>e. isHttpMethod (fst e) \<longrightarrow> finiteOperation (snd e))
           (entries (snd pe))) kvs"
  shows "list_all (\<lambda>pe. list_all (\<lambda>e. isHttpMethod (fst e) \<longrightarrow> repairedWhenWritten (snd e))
           (entries (snd pe))) (fst (fixPathEntries kvs))"
  using assms
proof (induction kvs)
  case Nil
  show ?case by simp
next
  case (Cons pe kvs)
  obtain path item where pe: "pe = (path, item)" by (cases pe)
  show ?case
    using Cons fixPathItem_written [of item path]
    by (simp add: pe fst_fixPathEntries_Cons del: fixPathEntries.simps)
qed

lemma fixPaths_written:
  assumes "isJson paths"
    and "list_all (\<lambda>pe. list_all (\<lambda>e. isHttpMethod (fst e) \<longrightarrow> finiteOperation (snd e))
           (entries (snd pe))) (entries paths)"
  shows "list_all (\<lambda>pe. list_all (\<lambda>e. isHttpMethod (fst e) \<longrightarrow> repairedWhenWritten (snd e))
           (entries (snd pe))) (entries (fst (fixPaths paths)))"
proof (cases paths)
  case (VObj kvs)
  then show ?thesis
    using assms fixPathEntries_written [of kvs]
    by (simp add: entries_fixPaths del: fixPaths.simps(1,2))
next
  case (VArr xs ps)
  let ?zs = "zip (map showNat [0..<length xs]) xs"
  have ps: "ps = []" and xs: "list_all isJson xs"
    using assms(1) VArr by simp_all
  have "list_all (\<lambda>pe. isJson (snd pe)) ?zs"
    using xs by (simp add: list_all_snd_zip)
  moreover have "list_all (\<lambda>pe. list_all (\<lambda>e. isHttpMethod (fst e) \<longrightarrow> finiteOperation (snd e))
           (entries (snd pe))) ?zs"
    using assms(2) by (simp add: VArr ps)
  ultimately show ?thesis
    using fixPathEntries_written [of ?zs]
    by (simp add: VArr ps entries_fixPaths del: fixPaths.simps(1,2))
qed simp_all

lemma written_operations:
  assumes "isJson d" "finiteOperations d" "normalize d = Inr (d', f, r)"
  shows "isArray (prop_js (reparse d') ''tags'')"
    and "(path, key, w) \<in> set (operations (reparse d')) \<Longrightarrow>
         \<exists>v. (path, key, v) \<in> set (operations d') \<and> w = reparse v \<and> repairedWhenWritten v"
proof -
  note n = normalize_Inr [OF assms(3)] and p = normalized_props [OF assms(3)]
  let ?P = "prop_js d ''paths''"
  let ?P' = "fst (fixPaths ?P)"
  have valid: "truthy (prop_js d ''openapi'')" "truthy ?P" "typeof ?P = ''object''"
    using n(1) by (simp_all add: validate_None_iff)
  have ops: "list_all (\<lambda>pe. list_all (\<lambda>e. isHttpMethod (fst e) \<longrightarrow> finiteOperation (snd e))
        (entries (snd pe))) (entries ?P)"
    using assms(2) by (simp add: finiteOperations_def operations_all)
  obtain kvs where d: "d = VObj kvs"
    using assms(1) valid(1) by (cases d) (simp_all add: prop_js_def)
  have jP: "isJson ?P"
    using assms(1) valid(2) by (intro isJson_prop_js) auto
  have P': "?P' \<noteq> VUndefined"
    using valid(2) by (cases ?P; simp add: fst_fixPaths del: fixPaths.simps(1,2))
  have "\<exists>kvs1. withTags d = VObj kvs1 \<and> list_all (\<lambda>kv. isJson (snd kv)) kvs1"
    using assms(1) by (cases "isArray (prop_js d ''tags'')") (simp_all add: withTags_def d list_all_update)
  then obtain kvs1 where w: "withTags d = VObj kvs1"
    and j1: "list_all (\<lambda>kv. isJson (snd kv)) kvs1"
    by blast
  let ?kvs' = "AList.update ''paths'' ?P' kvs1"
  have d': "d' = VObj ?kvs'"
    by (simp add: n(2) w)
  have "list_all (\<lambda>kv. snd kv \<noteq> VUndefined) kvs1"
    using j1 by (auto simp: list_all_iff dest: isJson_not_VUndefined)
  then have def': "list_all (\<lambda>kv. snd kv \<noteq> VUndefined) ?kvs'"
    using P' by (simp add: list_all_update)
  note look = prop_js_reparse [OF def', folded d']
  show "isArray (prop_js (reparse d') ''tags'')"
    using p(2) by (cases "prop_js d' ''tags''") (simp_all add: look)
  have paths2: "prop_js (reparse d') ''paths'' = reparse ?P'"
    using P' by (simp add: look p(1))
  note good = fixPaths_written [OF jP ops]
  show "\<exists>v. (path, key, v) \<in> set (operations d') \<and> w = reparse v \<and> repairedWhenWritten v"
    if mem: "(path, key, w) \<in> set (operations (reparse d'))"
  proof -
    obtain item2 where item2: "(path, item2) \<in> set (entries (reparse ?P'))"
      "(key, w) \<in> set (entries item2)" "isHttpMethod key"
      using mem unfolding operations_member paths2 by blast
    obtain item where item: "(path, item) \<in> set (entries ?P')" "item2 = reparse item"
      using entries_reparse_member [OF item2(1)] by blast
    obtain v where v: "(key, v) \<in> set (entries item)" "w = reparse v"
      using entries_reparse_member [OF item2(2) [unfolded item(2)]] by blast
    have "list_all (\<lambda>e. isHttpMethod (fst e) \<longrightarrow> repairedWhenWritten (snd e)) (entries item)"
      using good item(1) by (force simp: list_all_iff)
    then have "repairedWhenWritten v"
      using v(1) item2(3) by (force simp: list_all_iff)
    moreover have "(path, key, v) \<in> set (operations d')"
      using item(1) v(1) item2(3) unfolding operations_member p(1) by blast
    ultimately show ?thesis
      using v(2) by blast
  qed
qed

subsection \<open>The document after normalization\<close>

text \<open>
  C2, as amended. For every document that passes the checks of the top-level sections,
  the document after normalization has a top-level \<open>tags\<close> that is an array, and under
  every path and every HTTP method key (in any letter case) of its path item the value
  is neither \<open>null\<close> nor \<open>undefined\<close>; when that value is an object it has a non-empty
  \<open>tags\<close> array and a truthy \<open>operationId\<close>, which is a non-empty string whenever it is
  a string. A value under a method key that is a string, a number or a boolean is still
  there after normalization, under the same path and key, and an object under a method
  key with a truthy \<open>operationId\<close> keeps that \<open>operationId\<close>, string or not. This is
  the document that the run serializes. The document that \<open>JSON.parse\<close> reads from the
  written file has the same properties when the input is a JSON document in which no
  number beyond the range of a double stands under a method key or as the
  \<open>operationId\<close> of the value under a method key.
\<close>

theorem normalized_invariant:
  assumes "normalize d = Inr (d', f, r)"
  shows "isArray (prop_js d' ''tags'')
    \<and> (\<forall>(path, key, v) \<in> set (operations d').
          v \<noteq> VNull \<and> v \<noteq> VUndefined
          \<and> (isObject v \<longrightarrow>
                hasTags v \<and> truthy (prop_js v ''operationId'')
                \<and> (\<forall>s. prop_js v ''operationId'' = VStr s \<longrightarrow> s \<noteq> [])))
    \<and> (\<forall>(path, key, v) \<in> set (operations d).
          typeof v \<in> {''string'', ''number'', ''boolean''} \<longrightarrow>
          (path, key, v) \<in> set (operations d'))
    \<and> (\<forall>(path, key, v) \<in> set (operations d).
          isObject v \<and> truthy (prop_js v ''operationId'') \<longrightarrow>
          (\<exists>v'. (path, key, v') \<in> set (operations d') \<and> isObject v'
              \<and> prop_js v' ''operationId'' = prop_js v ''operationId''))
    \<and> (isJson d \<and> finiteOperations d \<longrightarrow>
          isArray (prop_js (reparse d') ''tags'')
          \<and> (\<forall>(path, key, v) \<in> set (operations (reparse d')).
                v \<noteq> VNull \<and> v \<noteq> VUndefined
                \<and> (isObject v \<longrightarrow>
                      hasTags v \<and> truthy (prop_js v ''operationId'')
                      \<and> (\<forall>s. prop_js v ''operationId'' = VStr s \<longrightarrow> s \<noteq> []))))"
proof -
  note p = normalized_props [OF assms]
  have obj: "typeof v = ''object'' \<and> v \<noteq> VNull" if "isObject v" for v
    using that by (cases v) simp_all
  have "v \<noteq> VNull \<and> v \<noteq> VUndefined
          \<and> (isObject v \<longrightarrow>
                hasTags v \<and> truthy (prop_js v ''operationId'')
                \<and> (\<forall>s. prop_js v ''operationId'' = VStr s \<longrightarrow> s \<noteq> []))"
    if mem: "(path, key, v) \<in> set (operations d')" for path key v
  proof -
    obtain item where item: "(path, item) \<in> set (entries (prop_js d' ''paths''))"
      "(key, v) \<in> set (entries item)" "isHttpMethod key"
      using mem unfolding operations_member by blast
    have "repairedItem item"
      using fixPaths_good [of "prop_js d ''paths''"] item(1)
      by (auto simp: p(1) list_all_iff)
    then have "repaired v"
      using item(2,3) by (auto simp: repairedItem_def list_all_iff)
    then show ?thesis
      using obj [of v] by (auto simp: repaired_def)
  qed
  then have after: "\<forall>(path, key, v) \<in> set (operations d').
          v \<noteq> VNull \<and> v \<noteq> VUndefined
          \<and> (isObject v \<longrightarrow>
                hasTags v \<and> truthy (prop_js v ''operationId'')
                \<and> (\<forall>s. prop_js v ''operationId'' = VStr s \<longrightarrow> s \<noteq> []))"
    by blast
  have skipped: "(path, key, v) \<in> set (operations d')"
    if mem: "(path, key, v) \<in> set (operations d)"
      and ty: "typeof v \<in> {''string'', ''number'', ''boolean''}" for path key v
  proof -
    obtain item where item: "(path, item) \<in> set (entries (prop_js d ''paths''))"
      "(key, v) \<in> set (entries item)" "isHttpMethod key"
      using mem unfolding operations_member by blast
    have v: "typeof v \<noteq> ''object''" "v \<noteq> VUndefined"
      using ty by (cases v; simp)+
    have "(path, fst (fixPathItem path item)) \<in> set (entries (prop_js d' ''paths''))"
      using item(1) by (simp add: p(1) entries_fixPaths_member)
    moreover have "(key, v) \<in> set (entries (fst (fixPathItem path item)))"
      using item(2) v by (rule entries_fixPathItem_member_skipped)
    ultimately show ?thesis
      using item(3) unfolding operations_member by blast
  qed
  have kept: "\<exists>v'. (path, key, v') \<in> set (operations d') \<and> isObject v'
              \<and> prop_js v' ''operationId'' = prop_js v ''operationId''"
    if mem: "(path, key, v) \<in> set (operations d)"
      and ty: "isObject v" and id: "truthy (prop_js v ''operationId'')" for path key v
  proof -
    obtain item where item: "(path, item) \<in> set (entries (prop_js d ''paths''))"
      "(key, v) \<in> set (entries item)" "isHttpMethod key"
      using mem unfolding operations_member by blast
    let ?v' = "fst (fixOperation key path v)"
    have "(path, fst (fixPathItem path item)) \<in> set (entries (prop_js d' ''paths''))"
      using item(1) by (simp add: p(1) entries_fixPaths_member)
    moreover have "(key, ?v') \<in> set (entries (fst (fixPathItem path item)))"
      using item(2,3) obj [OF ty] by (intro entries_fixPathItem_member) simp_all
    ultimately have "(path, key, ?v') \<in> set (operations d')"
      using item(3) unfolding operations_member by blast
    moreover have "prop_js ?v' ''operationId'' = prop_js v ''operationId''"
      using id by (rule fixOperation_keeps_operationId)
    ultimately show ?thesis
      using ty by auto
  qed
  have onDisk: "isArray (prop_js (reparse d') ''tags'')
          \<and> (\<forall>(path, key, v) \<in> set (operations (reparse d')).
                v \<noteq> VNull \<and> v \<noteq> VUndefined
                \<and> (isObject v \<longrightarrow>
                      hasTags v \<and> truthy (prop_js v ''operationId'')
                      \<and> (\<forall>s. prop_js v ''operationId'' = VStr s \<longrightarrow> s \<noteq> [])))"
    if j: "isJson d" and fin: "finiteOperations d"
  proof -
    note wr = written_operations [OF j fin assms]
    have "w \<noteq> VNull \<and> w \<noteq> VUndefined
          \<and> (isObject w \<longrightarrow>
                hasTags w \<and> truthy (prop_js w ''operationId'')
                \<and> (\<forall>s. prop_js w ''operationId'' = VStr s \<longrightarrow> s \<noteq> []))"
      if mem: "(path, key, w) \<in> set (operations (reparse d'))" for path key w
    proof -
      obtain v where v: "w = reparse v" "repairedWhenWritten v"
        using wr(2) [OF mem] by blast
      then show ?thesis
        by (auto simp: repairedWhenWritten_def)
    qed
    with wr(1) show ?thesis
      by blast
  qed
  show ?thesis
    using p(2) after skipped kept onDisk by blast
qed

lemmas eval_case =
  toLowerCase_def toLowerCaseChar_def toUpperCase_def toUpperCaseChar_def
  latin1Lower_def latin1Upper_def

lemmas eval_normalize =
  normalize_def validate_def prop_js_def Let_def fixOperation_def operationId_def
  isHttpMethod_def httpMethods_def eval_case

theorem normalized_invariant_witness:
  "normalize transfertsSpec =
     Inr (VObj [(''openapi'', VStr ''3.0.0''), (''info'', VObj []),
           (''paths'', VObj [(''/comptes/{numero}/transferts'',
              VObj [(''post'', VObj [(''tags'', VArr [VStr ''Default''] []),
                                     (''operationId'', VStr ''postComptesTransferts'')])])]),
           (''components'', VObj []), (''tags'', VArr [] [])], 1, 1)
   \<and> isArray (VArr [] [])
   \<and> hasTags (VObj [(''tags'', VArr [VStr ''Default''] []),
                     (''operationId'', VStr ''postComptesTransferts'')])
   \<and> truthy (prop_js (VObj [(''tags'', VArr [VStr ''Default''] []),
                             (''operationId'', VStr ''postComptesTransferts'')]) ''operationId'')
   \<and> (''/a'', ''get'', VStr ''x'') \<in> set (operations stringOperationSpec)
   \<and> typeof (VStr ''x'') = ''string''
   \<and> (''/a'', ''post'', VObj [(''operationId'', VNum ''5'')]) \<in> set (operations stringOperationSpec)
   \<and> truthy (prop_js (VObj [(''operationId'', VNum ''5'')]) ''operationId'')
   \<and> (\<exists>d' f r. normalize stringOperationSpec = Inr (d', f, r)
         \<and> (''/a'', ''get'', VStr ''x'') \<in> set (operations d')
         \<and> (\<exists>v'. (''/a'', ''post'', v') \<in> set (operations d') \<and> isObject v'
               \<and> prop_js v' ''operationId'' = VNum ''5''))
   \<and> isJson transfertsSpec \<and> finiteOperations transfertsSpec
   \<and> (\<exists>d' f r. normalize transfertsSpec = Inr (d', f, r)
         \<and> isArray (prop_js (reparse d') ''tags'')
         \<and> (\<exists>v. (''/comptes/{numero}/transferts'', ''post'', v) \<in> set (operations (reparse d'))
               \<and> hasTags v \<and> truthy (prop_js v ''operationId'')))"
proof -
  let ?op = "VObj [(''tags'', VArr [VStr ''Default''] []),
                   (''operationId'', VStr ''postComptesTransferts'')]"
  let ?d' = "VObj [(''openapi'', VStr ''3.0.0''), (''info'', VObj []),
           (''paths'', VObj [(''/comptes/{numero}/transferts'', VObj [(''post'', ?op)])]),
           (''components'', VObj []), (''tags'', VArr [] [])]"
  let ?e' = "VObj [(''openapi'', VStr ''3.0.0''), (''info'', VObj []),
           (''paths'', VObj [(''/a'',
              VObj [(''get'', VStr ''x''),
                    (''post'', VObj [(''operationId'', VNum ''5''),
                                     (''tags'', VArr [VStr ''Default''] [])])])]),
           (''components'', VObj []), (''tags'', VArr [] [])]"
  have n: "normalize transfertsSpec = Inr (?d', 1, 1)"
    by (simp add: eval_normalize transfertsSpec_def)
  have ops: "(''/comptes/{numero}/transferts'', ''post'', ?op) \<in> set (operations ?d')"
    by (simp add: operations_def prop_js_def isHttpMethod_def httpMethods_def
        eval_case)
  have tags: "prop_js ?d' ''tags'' = VArr [] []"
    by (simp add: prop_js_def)
  from normalized_invariant [OF n] ops
  have first: "isArray (prop_js ?d' ''tags'') \<and> hasTags ?op \<and> truthy (prop_js ?op ''operationId'')"
    by fastforce
  have m: "normalize stringOperationSpec = Inr (?e', 1, 0)"
    by (simp add: eval_normalize stringOperationSpec_def)
  have get: "(''/a'', ''get'', VStr ''x'') \<in> set (operations stringOperationSpec)"
    and post: "(''/a'', ''post'', VObj [(''operationId'', VNum ''5'')])
        \<in> set (operations stringOperationSpec)"
    by (simp_all add: operations_def stringOperationSpec_def prop_js_def isHttpMethod_def
        httpMethods_def eval_case)
  have id: "prop_js (VObj [(''operationId'', VNum ''5'')]) ''operationId'' = VNum ''5''"
    by (simp add: prop_js_def)
  from normalized_invariant [OF m] get
  have second: "(''/a'', ''get'', VStr ''x'') \<in> set (operations ?e')"
    by fastforce
  from normalized_invariant [OF m] post id
  have third: "\<exists>v'. (''/a'', ''post'', v') \<in> set (operations ?e') \<and> isObject v'
               \<and> prop_js v' ''operationId'' = VNum ''5''"
    by fastforce
  have j: "isJson transfertsSpec"
    by (simp add: transfertsSpec_def)
  have fin: "finiteOperations transfertsSpec"
    by (simp add: finiteOperations_def finiteOperation_def operations_def transfertsSpec_def
        prop_js_def)
  have opsR: "(''/comptes/{numero}/transferts'', ''post'', ?op) \<in> set (operations (reparse ?d'))"
    by (simp add: operations_def prop_js_def isHttpMethod_def httpMethods_def eval_case)
  from normalized_invariant [OF n] j fin opsR
  have fourth: "isArray (prop_js (reparse ?d') ''tags'')
      \<and> (\<exists>v. (''/comptes/{numero}/transferts'', ''post'', v) \<in> set (operations (reparse ?d'))
            \<and> hasTags v \<and> truthy (prop_js v ''operationId''))"
    by fastforce
  have a: "normalize transfertsSpec = Inr (?d', 1, 1)
   \<and> isArray (VArr [] [])
   \<and> hasTags ?op \<and> truthy (prop_js ?op ''operationId'')"
    using n tags first by simp
  have b: "(''/a'', ''get'', VStr ''x'') \<in> set (operations stringOperationSpec)
   \<and> typeof (VStr ''x'') = ''string''
   \<and> (''/a'', ''post'', VObj [(''operationId'', VNum ''5'')]) \<in> set (operations stringOperationSpec)
   \<and> truthy (prop_js (VObj [(''operationId'', VNum ''5'')]) ''operationId'')"
    using get post id by (simp add: isFinite_def)
  have c: "\<exists>d' f r. normalize stringOperationSpec = Inr (d', f, r)
         \<and> (''/a'', ''get'', VStr ''x'') \<in> set (operations d')
         \<and> (\<exists>v'. (''/a'', ''post'', v') \<in> set (operations d') \<and> isObject v'
               \<and> prop_js v' ''operationId'' = VNum ''5'')"
    using m second third by blast
  have d: "\<exists>d' f r. normalize transfertsSpec = Inr (d', f, r)
         \<and> isArray (prop_js (reparse d') ''tags'')
         \<and> (\<exists>v. (''/comptes/{numero}/transferts'', ''post'', v) \<in> set (operations (reparse d'))
               \<and> hasTags v \<and> truthy (prop_js v ''operationId''))"
    using n fourth by blast
  show ?thesis
    using a b c j fin d by blast
qed

text \<open>
  The claim as stated fails on a document with \<open>"get": "x"\<close> and
  \<open>"post": {"operationId": 5}\<close> under the path \<open>/a\<close>: after normalization the value
  under \<open>get\<close> is still the string, which has neither \<open>tags\<close> nor an \<open>operationId\<close>,
  and the \<open>operationId\<close> under \<open>post\<close> is still the number 5. For the written file it
  fails as well on a document with \<open>"get": 1e400\<close> under the path \<open>/a\<close>: the run keeps
  the number, and the file holds \<open>"get": null\<close>.
\<close>

theorem normalized_invariant_counterexample:
  "normalize stringOperationSpec =
     Inr (VObj [(''openapi'', VStr ''3.0.0''), (''info'', VObj []),
           (''paths'', VObj [(''/a'',
              VObj [(''get'', VStr ''x''),
                    (''post'', VObj [(''operationId'', VNum ''5''),
                                     (''tags'', VArr [VStr ''Default''] [])])])]),
           (''components'', VObj []), (''tags'', VArr [] [])], 1, 0)
   \<and> operations (VObj [(''openapi'', VStr ''3.0.0''), (''info'', VObj []),
           (''paths'', VObj [(''/a'',
              VObj [(''get'', VStr ''x''),
                    (''post'', VObj [(''operationId'', VNum ''5''),
                                     (''tags'', VArr [VStr ''Default''] [])])])]),
           (''components'', VObj []), (''tags'', VArr [] [])])
       = [(''/a'', ''get'', VStr ''x''),
          (''/a'', ''post'', VObj [(''operationId'', VNum ''5''),
                                   (''tags'', VArr [VStr ''Default''] [])])]
   \<and> \<not> hasTags (VStr ''x'')
   \<and> \<not> hasOperationIdString (VStr ''x'')
   \<and> \<not> hasOperationIdString (VObj [(''operationId'', VNum ''5''),
                                        (''tags'', VArr [VStr ''Default''] [])])
   \<and> isJson overflowSpec
   \<and> normalize overflowSpec =
     Inr (VObj [(''openapi'', VStr ''3.0.0''), (''info'', VObj []),
                (''paths'', VObj [(''/a'', VObj [(''get'', VNum ''Infinity'')])]),
                (''components'', VObj []), (''tags'', VArr [] [])], 0, 0)
   \<and> operations (reparse
         (VObj [(''openapi'', VStr ''3.0.0''), (''info'', VObj []),
                (''paths'', VObj [(''/a'', VObj [(''get'', VNum ''Infinity'')])]),
                (''components'', VObj []), (''tags'', VArr [] [])]))
       = [(''/a'', ''get'', VNull)]"
  by (simp add: eval_normalize stringOperationSpec_def operations_def hasTags_def
      hasOperationIdString_def overflowSpec_def isFinite_def)

subsection \<open>A second run\<close>

text \<open>
  C1, as amended. Let a JSON document pass the checks of the top-level sections, and let
  no number beyond the range of a double (which \<open>JSON.parse\<close> reads as \<open>Infinity\<close> and
  \<open>JSON.stringify\<close> writes as \<open>null\<close>) stand as \<open>openapi\<close>, as \<open>info\<close>, under an HTTP
  method key of a path item, or as the \<open>operationId\<close> of the value under a method key.
  Then the run on the text that the first run wrote (read back by \<open>JSON.parse\<close>) exits
  with code 0, removes no operation (\<open>removedNullOps\<close> is zero) and writes the text that
  the first run wrote, byte for byte; and its \<open>fixedPaths\<close> is zero when no HTTP method
  key of a path item of the document holds an array.
\<close>

theorem normalizer_idempotent:
  assumes "isJson d" "finiteWhereRead d" "normalize d = Inr (d', f, r)"
  shows "preGenerate (Inr d) =
           \<lparr> exitCode = 0, written = Some (stringify d'), diagnostic = None,
             fixedPaths = f, removedNullOps = r \<rparr>
    \<and> secondRun d = preGenerate (Inr (reparse d'))
    \<and> exitCode (secondRun d) = 0
    \<and> diagnostic (secondRun d) = None
    \<and> removedNullOps (secondRun d) = 0
    \<and> written (secondRun d) = Some (stringify d')
    \<and> (noArrayOperations d \<longrightarrow> fixedPaths (secondRun d) = 0)"
proof -
  have first: "preGenerate (Inr d) =
           \<lparr> exitCode = 0, written = Some (stringify d'), diagnostic = None,
             fixedPaths = f, removedNullOps = r \<rparr>"
    using assms(3) by (simp add: preGenerate_def)
  have run: "secondRun d = preGenerate (Inr (reparse d'))"
    using assms(3) by (simp add: secondRun_def)
  obtain d'' f2 where second: "normalize (reparse d') = Inr (d'', f2, 0)"
    and same: "reparse d'' = reparse d'"
    and fixed: "noArrayOperations d \<longrightarrow> f2 = 0"
    using second_normalize [OF assms] by blast
  have "stringify d'' = stringify (reparse d'')"
    by (simp add: stringify_reparse)
  also have "\<dots> = stringify d'"
    unfolding same by (rule stringify_reparse)
  finally have bytes: "stringify d'' = stringify d'" .
  show ?thesis
    using first run second bytes fixed by (simp add: preGenerate_def)
qed

theorem normalizer_idempotent_witness:
  "isJson transfertsSpec \<and> finiteWhereRead transfertsSpec \<and> noArrayOperations transfertsSpec
   \<and> fixedPaths (preGenerate (Inr transfertsSpec)) = 1
   \<and> removedNullOps (preGenerate (Inr transfertsSpec)) = 1
   \<and> secondRun transfertsSpec
     = \<lparr> exitCode = 0, written = written (preGenerate (Inr transfertsSpec)), diagnostic = None,
         fixedPaths = 0, removedNullOps = 0 \<rparr>
   \<and> isJson arrayOperationSpec \<and> finiteWhereRead arrayOperationSpec
   \<and> removedNullOps (secondRun arrayOperationSpec) = 0
   \<and> written (secondRun arrayOperationSpec) = written (preGenerate (Inr arrayOperationSpec))
   \<and> isJson overflowComponentsSpec \<and> finiteWhereRead overflowComponentsSpec
   \<and> noArrayOperations overflowComponentsSpec
   \<and> prop_js (prop_js overflowComponentsSpec ''components'') ''limit'' = VNum ''Infinity''
   \<and> secondRun overflowComponentsSpec
     = \<lparr> exitCode = 0, written = written (preGenerate (Inr overflowComponentsSpec)),
         diagnostic = None, fixedPaths = 0, removedNullOps = 0 \<rparr>"
proof -
  let ?d' = "VObj [(''openapi'', VStr ''3.0.0''), (''info'', VObj []),
           (''paths'', VObj [(''/comptes/{numero}/transferts'',
              VObj [(''post'', VObj [(''tags'', VArr [VStr ''Default''] []),
                                     (''operationId'', VStr ''postComptesTransferts'')])])]),
           (''components'', VObj []), (''tags'', VArr [] [])]"
  let ?e' = "VObj [(''openapi'', VStr ''3.0.0''), (''info'', VObj []),
           (''paths'', VObj [(''/a'',
              VObj [(''get'', VArr [] [(''tags'', VArr [VStr ''Default''] []),
                                       (''operationId'', VStr ''getA'')])])]),
           (''components'', VObj []), (''tags'', VArr [] [])]"
  let ?c' = "VObj [(''openapi'', VStr ''3.0.0''), (''info'', VObj []),
           (''paths'', VObj [(''/a'',
              VObj [(''get'', VObj [(''tags'', VArr [VStr ''Default''] []),
                                    (''operationId'', VStr ''getA'')])])]),
           (''components'', VObj [(''limit'', VNum ''Infinity'')]), (''tags'', VArr [] [])]"
  have n: "normalize transfertsSpec = Inr (?d', 1, 1)"
    by (simp add: eval_normalize transfertsSpec_def)
  have j: "isJson transfertsSpec"
    by (simp add: transfertsSpec_def)
  have w: "finiteWhereRead transfertsSpec"
    by (simp add: finiteWhereRead_def finiteOperations_def finiteOperation_def operations_def transfertsSpec_def
        prop_js_def)
  have a: "noArrayOperations transfertsSpec"
    by (simp add: noArrayOperations_def operations_def transfertsSpec_def prop_js_def)
  have m: "normalize arrayOperationSpec = Inr (?e', 1, 0)"
    by (simp add: eval_normalize arrayOperationSpec_def)
  have k: "isJson arrayOperationSpec"
    by (simp add: arrayOperationSpec_def)
  have x: "finiteWhereRead arrayOperationSpec"
    by (simp add: finiteWhereRead_def finiteOperations_def finiteOperation_def operations_def arrayOperationSpec_def
        prop_js_def)
  have l: "normalize overflowComponentsSpec = Inr (?c', 1, 0)"
    by (simp add: eval_normalize overflowComponentsSpec_def)
  have i: "isJson overflowComponentsSpec"
    by (simp add: overflowComponentsSpec_def)
  have y: "finiteWhereRead overflowComponentsSpec"
    by (simp add: finiteWhereRead_def finiteOperations_def finiteOperation_def operations_def
        overflowComponentsSpec_def prop_js_def)
  have b: "noArrayOperations overflowComponentsSpec"
    by (simp add: noArrayOperations_def operations_def overflowComponentsSpec_def prop_js_def)
  have inf: "prop_js (prop_js overflowComponentsSpec ''components'') ''limit'' = VNum ''Infinity''"
    by (simp add: overflowComponentsSpec_def prop_js_def)
  from normalizer_idempotent [OF j w n] a
  have first: "preGenerate (Inr transfertsSpec) =
       \<lparr> exitCode = 0, written = Some (stringify ?d'), diagnostic = None,
         fixedPaths = 1, removedNullOps = 1 \<rparr>
     \<and> secondRun transfertsSpec
       = \<lparr> exitCode = 0, written = Some (stringify ?d'), diagnostic = None,
           fixedPaths = 0, removedNullOps = 0 \<rparr>"
    by (cases "secondRun transfertsSpec") simp
  from normalizer_idempotent [OF k x m]
  have second: "preGenerate (Inr arrayOperationSpec) =
       \<lparr> exitCode = 0, written = Some (stringify ?e'), diagnostic = None,
         fixedPaths = 1, removedNullOps = 0 \<rparr>
     \<and> removedNullOps (secondRun arrayOperationSpec) = 0
     \<and> written (secondRun arrayOperationSpec) = Some (stringify ?e')"
    by blast
  from normalizer_idempotent [OF i y l] b
  have third: "preGenerate (Inr overflowComponentsSpec) =
       \<lparr> exitCode = 0, written = Some (stringify ?c'), diagnostic = None,
         fixedPaths = 1, removedNullOps = 0 \<rparr>
     \<and> secondRun overflowComponentsSpec
       = \<lparr> exitCode = 0, written = Some (stringify ?c'), diagnostic = None,
           fixedPaths = 0, removedNullOps = 0 \<rparr>"
    by (cases "secondRun overflowComponentsSpec") simp
  from j w a k x i y b inf first second third show ?thesis
    by simp
qed

text \<open>
  The claim as stated fails on documents that pass the checks. With \<open>"get": 1e400\<close>
  under the path \<open>/a\<close> the number is read as \<open>Infinity\<close>, which the first run keeps and
  \<open>JSON.stringify\<close> writes as \<open>null\<close>: the second run removes the operation, counts it
  and writes another text. With \<open>"info": 1e400\<close> the first run writes \<open>"info": null\<close>
  and the second run fails the check of \<open>info\<close>; likewise with \<open>"openapi": 1e400\<close>. With \<open>"operationId": 1e400\<close> in an
  operation the first run writes \<open>"operationId": null\<close> and the second run writes
  a default \<open>operationId\<close> in its place. With \<open>"get": []\<close> under the path \<open>/a\<close> the
  first run counts one fixed operation and stores \<open>tags\<close> and \<open>operationId\<close> as named
  properties of the array, which \<open>JSON.stringify\<close> does not print: the second run reads
  \<open>"get": []\<close> again and counts one fixed operation again.
\<close>

theorem normalizer_idempotent_counterexample:
  "isJson overflowSpec
   \<and> preGenerate (Inr overflowSpec) =
       \<lparr> exitCode = 0,
         written = Some (stringify
           (VObj [(''openapi'', VStr ''3.0.0''), (''info'', VObj []),
                  (''paths'', VObj [(''/a'', VObj [(''get'', VNum ''Infinity'')])]),
                  (''components'', VObj []), (''tags'', VArr [] [])])),
         diagnostic = None, fixedPaths = 0, removedNullOps = 0 \<rparr>
   \<and> secondRun overflowSpec =
       \<lparr> exitCode = 0,
         written = Some (stringify
           (VObj [(''openapi'', VStr ''3.0.0''), (''info'', VObj []),
                  (''paths'', VObj [(''/a'', VObj [])]),
                  (''components'', VObj []), (''tags'', VArr [] [])])),
         diagnostic = None, fixedPaths = 0, removedNullOps = 1 \<rparr>
   \<and> written (secondRun overflowSpec) \<noteq> written (preGenerate (Inr overflowSpec))
   \<and> isJson overflowInfoSpec
   \<and> exitCode (preGenerate (Inr overflowInfoSpec)) = 0
   \<and> secondRun overflowInfoSpec =
       \<lparr> exitCode = 1, written = None,
         diagnostic = Some (Error (''Missing '' @ quote ''info'' @ '' field'')),
         fixedPaths = 0, removedNullOps = 0 \<rparr>
   \<and> isJson overflowOpenapiSpec
   \<and> exitCode (preGenerate (Inr overflowOpenapiSpec)) = 0
   \<and> secondRun overflowOpenapiSpec =
       \<lparr> exitCode = 1, written = None,
         diagnostic = Some (Error (''Missing '' @ quote ''openapi'' @ '' field'')),
         fixedPaths = 0, removedNullOps = 0 \<rparr>
   \<and> isJson overflowOperationIdSpec
   \<and> exitCode (preGenerate (Inr overflowOperationIdSpec)) = 0
   \<and> exitCode (secondRun overflowOperationIdSpec) = 0
   \<and> written (secondRun overflowOperationIdSpec)
       \<noteq> written (preGenerate (Inr overflowOperationIdSpec))
   \<and> isJson arrayOperationSpec
   \<and> fixedPaths (preGenerate (Inr arrayOperationSpec)) = 1
   \<and> fixedPaths (secondRun arrayOperationSpec) = 1"
proof -
  have one: "isJson overflowSpec"
    "preGenerate (Inr overflowSpec) =
       \<lparr> exitCode = 0,
         written = Some (stringify
           (VObj [(''openapi'', VStr ''3.0.0''), (''info'', VObj []),
                  (''paths'', VObj [(''/a'', VObj [(''get'', VNum ''Infinity'')])]),
                  (''components'', VObj []), (''tags'', VArr [] [])])),
         diagnostic = None, fixedPaths = 0, removedNullOps = 0 \<rparr>"
    "secondRun overflowSpec =
       \<lparr> exitCode = 0,
         written = Some (stringify
           (VObj [(''openapi'', VStr ''3.0.0''), (''info'', VObj []),
                  (''paths'', VObj [(''/a'', VObj [])]),
                  (''components'', VObj []), (''tags'', VArr [] [])])),
         diagnostic = None, fixedPaths = 0, removedNullOps = 1 \<rparr>"
    by (simp_all add: overflowSpec_def secondRun_def preGenerate_def eval_normalize isFinite_def)
  have bytes: "stringify
           (VObj [(''openapi'', VStr ''3.0.0''), (''info'', VObj []),
                  (''paths'', VObj [(''/a'', VObj [])]),
                  (''components'', VObj []), (''tags'', VArr [] [])])
      \<noteq> stringify
           (VObj [(''openapi'', VStr ''3.0.0''), (''info'', VObj []),
                  (''paths'', VObj [(''/a'', VObj [(''get'', VNum ''Infinity'')])]),
                  (''components'', VObj []), (''tags'', VArr [] [])])"
    by (simp add: stringify_def quote_def escapeChar_def isFinite_def)
  have two: "isJson overflowInfoSpec"
    "exitCode (preGenerate (Inr overflowInfoSpec)) = 0"
    "secondRun overflowInfoSpec =
       \<lparr> exitCode = 1, written = None,
         diagnostic = Some (Error (''Missing '' @ quote ''info'' @ '' field'')),
         fixedPaths = 0, removedNullOps = 0 \<rparr>"
    by (simp_all add: overflowInfoSpec_def secondRun_def preGenerate_def eval_normalize
        isFinite_def)
  have two': "isJson overflowOpenapiSpec"
    "exitCode (preGenerate (Inr overflowOpenapiSpec)) = 0"
    "secondRun overflowOpenapiSpec =
       \<lparr> exitCode = 1, written = None,
         diagnostic = Some (Error (''Missing '' @ quote ''openapi'' @ '' field'')),
         fixedPaths = 0, removedNullOps = 0 \<rparr>"
    by (simp_all add: overflowOpenapiSpec_def secondRun_def preGenerate_def eval_normalize
        isFinite_def)
  have three: "isJson overflowOperationIdSpec"
    "exitCode (preGenerate (Inr overflowOperationIdSpec)) = 0"
    "exitCode (secondRun overflowOperationIdSpec) = 0"
    by (simp_all add: overflowOperationIdSpec_def secondRun_def preGenerate_def eval_normalize
        isFinite_def)
  have other: "written (secondRun overflowOperationIdSpec)
       \<noteq> written (preGenerate (Inr overflowOperationIdSpec))"
    by (simp add: overflowOperationIdSpec_def secondRun_def preGenerate_def eval_normalize
        isFinite_def stringify_def quote_def escapeChar_def)
  have four: "isJson arrayOperationSpec"
    "fixedPaths (preGenerate (Inr arrayOperationSpec)) = 1"
    "fixedPaths (secondRun arrayOperationSpec) = 1"
    by (simp_all add: arrayOperationSpec_def secondRun_def preGenerate_def eval_normalize)
  show ?thesis
    using one bytes two two' three other four by simp
qed



subsection \<open>Failure of the checks\<close>




subsection \<open>The default operation identifier\<close>

lemma join_split: "join [sep] (split sep s) = s"
proof (induction s)
  case Nil
  show ?case by simp
next
  case (Cons c s)
  obtain p ps where ps: "split sep s = p # ps"
    by (cases s; cases "split sep s"; simp split: if_splits list.splits)
  with Cons show ?case
    by (cases ps) auto
qed

lemma split_no_separator: "p \<in> set (split sep s) \<Longrightarrow> sep \<notin> set p"
  by (induction s arbitrary: p) (auto split: if_splits list.splits)

lemma join_empty: "join [] xs = concat xs"
  by (induction xs rule: induct_list012) simp_all

lemma startsWith_brace: "startsWith p ''{'' \<longleftrightarrow> p \<noteq> [] \<and> hd p = CHR ''{''"
  by (cases p) auto

lemma capitalize_charAt: "p \<noteq> [] \<Longrightarrow> toUpperCase (take 1 p) @ drop 1 p = capitalize p"
  by (cases p) (simp_all add: toUpperCase_def)

lemma operationId_spec:
  "operationId key path =
     toLowerCase key
     @ concat (map capitalize
         (filter (\<lambda>seg. seg \<noteq> [] \<and> hd seg \<noteq> CHR ''{'') (split CHR ''/'' path)))"
proof -
  have f: "filter (\<lambda>p. p \<noteq> [] \<and> \<not> startsWith p ''{'') xs
      = filter (\<lambda>seg. seg \<noteq> [] \<and> hd seg \<noteq> CHR ''{'') xs" for xs
    by (rule filter_cong) (auto simp: startsWith_brace)
  have m: "map (\<lambda>p. toUpperCase (take 1 p) @ drop 1 p) (filter (\<lambda>seg. seg \<noteq> [] \<and> hd seg \<noteq> CHR ''{'') xs)
      = map capitalize (filter (\<lambda>seg. seg \<noteq> [] \<and> hd seg \<noteq> CHR ''{'') xs)" for xs
  proof (rule map_cong)
    fix p assume "p \<in> set (filter (\<lambda>seg. seg \<noteq> [] \<and> hd seg \<noteq> CHR ''{'') xs)"
    then have "p \<noteq> []" by simp
    then show "toUpperCase (take 1 p) @ drop 1 p = capitalize p"
      by (rule capitalize_charAt)
  qed simp
  show ?thesis
    unfolding operationId_def Let_def join_empty f m ..
qed

lemma operationId_latin1:
  "operationId ''GET'' (''/'' @ [CHR 0xE9] @ ''coles/stra'' @ [CHR 0xDF] @ ''e/'' @ [CHR 0xDF])
     = ''get'' @ [CHR 0xC9] @ ''colesStra'' @ [CHR 0xDF] @ ''eSS''"
  by (simp add: operationId_def eval_case)

text \<open>
  C5. For every operation object (an object under an HTTP method key of a path item)
  that lacks a truthy \<open>operationId\<close>, the normalizer sets \<open>operationId\<close> to
  the method key in lower case followed by every segment of the path, split at \<open>/\<close>,
  that is non-empty and does not start with \<open>{\<close>, each with its first character in
  upper case. The method \<open>post\<close> under \<open>/comptes/{numero}/transferts\<close> gives
  \<open>postComptesTransferts\<close>. The paths are those whose code units are below 256 and
  whose segments start with a character that has its upper case below 256
  (\<^const>\<open>upperCaseInRange\<close>): the upper case of a first character is then the one of
  \<open>toUpperCase\<close>, a Latin-1 capital or \<open>SS\<close> for the sharp s included.
\<close>

theorem operationId_synthesis:
  assumes "normalize d = Inr (d', f, r)"
    and "(path, key, v) \<in> set (operations d)"
    and "isObject v"
    and "\<not> truthy (prop_js v ''operationId'')"
    and "upperCaseInRange (firstCharacters path)"
  shows "(\<exists>v'. (path, key, v') \<in> set (operations d')
           \<and> prop_js v' ''operationId'' =
               VStr (toLowerCase key
                     @ concat (map capitalize
                         (filter (\<lambda>seg. seg \<noteq> [] \<and> hd seg \<noteq> CHR ''{'')
                            (split CHR ''/'' path)))))
    \<and> operationId ''post'' ''/comptes/{numero}/transferts'' = ''postComptesTransferts''"
proof -
  obtain item where item: "(path, item) \<in> set (entries (prop_js d ''paths''))"
    "(key, v) \<in> set (entries item)" "isHttpMethod key"
    using assms(2) unfolding operations_member by blast
  have obj: "typeof v = ''object''" "v \<noteq> VNull"
    using assms(3) by (cases v; simp)+
  let ?v' = "fst (fixOperation key path v)"
  have "(path, fst (fixPathItem path item)) \<in> set (entries (prop_js d' ''paths''))"
    using item(1) by (simp add: normalized_props(1) [OF assms(1)] entries_fixPaths_member)
  moreover have "(key, ?v') \<in> set (entries (fst (fixPathItem path item)))"
    using item(2,3) obj by (rule entries_fixPathItem_member)
  ultimately have "(path, key, ?v') \<in> set (operations d')"
    using item(3) unfolding operations_member by blast
  moreover have "prop_js ?v' ''operationId'' = VStr (operationId key path)"
    using obj assms(4) by (rule fixOperation_operationId)
  moreover have "operationId ''post'' ''/comptes/{numero}/transferts'' = ''postComptesTransferts''"
    by (simp add: operationId_def eval_case)
  ultimately show ?thesis
    unfolding operationId_spec by blast
qed

theorem operationId_synthesis_witness:
  "normalize transfertsSpec =
     Inr (VObj [(''openapi'', VStr ''3.0.0''), (''info'', VObj []),
           (''paths'', VObj [(''/comptes/{numero}/transferts'',
              VObj [(''post'', VObj [(''tags'', VArr [VStr ''Default''] []),
                                     (''operationId'', VStr ''postComptesTransferts'')])])]),
           (''components'', VObj []), (''tags'', VArr [] [])], 1, 1)
   \<and> (''/comptes/{numero}/transferts'', ''post'', VObj []) \<in> set (operations transfertsSpec)
   \<and> isObject (VObj [])
   \<and> prop_js (VObj []) ''operationId'' = VUndefined
   \<and> upperCaseInRange (firstCharacters ''/comptes/{numero}/transferts'')
   \<and> (\<exists>v'. (''/comptes/{numero}/transferts'', ''post'', v')
           \<in> set (operations
                 (VObj [(''openapi'', VStr ''3.0.0''), (''info'', VObj []),
                   (''paths'', VObj [(''/comptes/{numero}/transferts'',
                      VObj [(''post'', VObj [(''tags'', VArr [VStr ''Default''] []),
                                             (''operationId'', VStr ''postComptesTransferts'')])])]),
                   (''components'', VObj []), (''tags'', VArr [] [])]))
         \<and> prop_js v' ''operationId'' = VStr ''postComptesTransferts'')"
proof -
  let ?d' = "VObj [(''openapi'', VStr ''3.0.0''), (''info'', VObj []),
           (''paths'', VObj [(''/comptes/{numero}/transferts'',
              VObj [(''post'', VObj [(''tags'', VArr [VStr ''Default''] []),
                                     (''operationId'', VStr ''postComptesTransferts'')])])]),
           (''components'', VObj []), (''tags'', VArr [] [])]"
  have n: "normalize transfertsSpec = Inr (?d', 1, 1)"
    by (simp add: eval_normalize transfertsSpec_def)
  have mem: "(''/comptes/{numero}/transferts'', ''post'', VObj []) \<in> set (operations transfertsSpec)"
    by (simp add: operations_def transfertsSpec_def prop_js_def isHttpMethod_def httpMethods_def
        eval_case)
  have ty: "isObject (VObj [])"
    by simp
  have u: "prop_js (VObj []) ''operationId'' = VUndefined"
    by (simp add: prop_js_def)
  then have falsy: "\<not> truthy (prop_js (VObj []) ''operationId'')"
    by simp
  have rng: "upperCaseInRange (firstCharacters ''/comptes/{numero}/transferts'')"
    by (simp add: upperCaseInRange_def firstCharacters_def)
  have name: "toLowerCase ''post''
      @ concat (map capitalize
          (filter (\<lambda>seg. seg \<noteq> [] \<and> hd seg \<noteq> CHR ''{'')
             (split CHR ''/'' ''/comptes/{numero}/transferts'')))
      = ''postComptesTransferts''"
    by (simp add: eval_case)
  from operationId_synthesis [OF n mem ty falsy rng]
  have "\<exists>v'. (''/comptes/{numero}/transferts'', ''post'', v') \<in> set (operations ?d')
         \<and> prop_js v' ''operationId'' = VStr ''postComptesTransferts''"
    unfolding name by blast
  with n mem ty u rng show ?thesis by blast
qed

section \<open>Properties of the patcher\<close>

subsection \<open>A known empty type\<close>


lemmas eval_patch =
  exec_def matchEmptyType_def isWordChar_def isSpace_def lookupFix_def emptyTypeFixes_def
  inheritedFunctions_def matchRemise_def matchRemiseDefinition_def Let_def

lemma repaired_text:
  "repairedCompteTransfert =
     ''export type CompteTransfertIntraRequest = {\<newline>    txId: string;\<newline>    montant: number;\<newline>    motif?: string;\<newline>    payeurNumero?: string;\<newline>    payeNumero?: string;\<newline>    payeurAlias?: string;\<newline>    payeAlias?: string;\<newline>};''"
  by (simp add: repairedCompteTransfert_def objectType_def)

lemma exec_empty: "exec emptyCompteTransfert 0 = Some (43, ''CompteTransfertIntraRequest'')"
  by (simp add: emptyCompteTransfert_def eval_patch)

lemma lookup_compte:
  "lookupFix ''CompteTransfertIntraRequest'' =
     Some (objectType
         [(''txId'', False, ''string''), (''montant'', False, ''number''),
          (''motif'', True, ''string''), (''payeurNumero'', True, ''string''),
          (''payeNumero'', True, ''string''), (''payeurAlias'', True, ''string''),
          (''payeAlias'', True, ''string'')])"
  by (simp add: lookupFix_def emptyTypeFixes_def objectType_def)

lemma replace_compte:
  "replaceFirst (''export type '' @ ''CompteTransfertIntraRequest'' @ '' = ;'')
     (''export type '' @ ''CompteTransfertIntraRequest'' @ '' = '' @ body @ '';'')
     emptyCompteTransfert
   = ''export type CompteTransfertIntraRequest = '' @ body @ '';''"
  by (simp add: emptyCompteTransfert_def)

lemma exec_repaired_43: "exec repairedCompteTransfert 43 = None"
  by (simp add: repaired_text eval_patch)

lemma exec_repaired_0: "exec repairedCompteTransfert 0 = None"
  by (simp add: repaired_text eval_patch)

lemma hasRemise_repaired: "\<not> hasRemise repairedCompteTransfert"
  by (simp add: repaired_text eval_patch)

lemma includes_repaired: "\<not> includesText repairedCompteTransfert ''remise: ;''"
  by (simp add: repaired_text)


lemma fixLoop_done: "exec content i = None \<Longrightarrow> fixLoop content i n m = Some (content, n, m)"
  by (subst fixLoop.simps) simp

lemma fixLoop_fix:
  "exec content i = Some (i', typeName) \<Longrightarrow> lookupFix typeName = Some body \<Longrightarrow>
   fixLoop content i n m =
     fixLoop (replaceFirst (''export type '' @ typeName @ '' = ;'')
                (''export type '' @ typeName @ '' = '' @ body @ '';'') content)
       i' (Suc n) True"
  by (subst fixLoop.simps) simp

lemma fixLoop_skip:
  "exec content i = Some (i', typeName) \<Longrightarrow> lookupFix typeName = None \<Longrightarrow>
   fixLoop content i n m = fixLoop content i' n m"
  by (subst fixLoop.simps) simp

lemma fixFile_empty: "fixFile emptyCompteTransfert = Some (repairedCompteTransfert, 1, True)"
proof -
  have "fixLoop emptyCompteTransfert 0 0 False = fixLoop repairedCompteTransfert 43 (Suc 0) True"
    unfolding repairedCompteTransfert_def replace_compte [symmetric]
    by (rule fixLoop_fix [OF exec_empty lookup_compte])
  also have "\<dots> = Some (repairedCompteTransfert, Suc 0, True)"
    using exec_repaired_43 by (rule fixLoop_done)
  finally show ?thesis
    by (simp add: fixFile_def fixRemise_def fixRemiseDefinition_def hasRemise_repaired
        includes_repaired)
qed

lemma fixFile_repaired: "fixFile repairedCompteTransfert = Some (repairedCompteTransfert, 0, False)"
  by (simp add: fixFile_def fixLoop_done [OF exec_repaired_0] fixRemise_def
      fixRemiseDefinition_def hasRemise_repaired includes_repaired)

lemma endsWith_ts: "endsWith ''CompteTransfertIntraRequest.ts'' ''.ts''"
  by (simp add: endsWith_def)

text \<open>
  C4. For a model file whose content is exactly
  \<open>export type CompteTransfertIntraRequest = ;\<close> the patcher counts one fix and writes the
  file with the declaration \<open>export type CompteTransfertIntraRequest = <body>;\<close>, where
  the body is the entry of the correction table: the fields \<open>txId: string\<close> and
  \<open>montant: number\<close>, and the optional fields \<open>motif\<close>, \<open>payeurNumero\<close>, \<open>payeNumero\<close>,
  \<open>payeurAlias\<close> and \<open>payeAlias\<close>, all \<open>string\<close>. A second run over the repaired file
  counts no fix and writes nothing: the pattern of the empty alias has no match in it.
\<close>

theorem known_empty_type_repair:
  "fixEmptyTypes (Some [(''CompteTransfertIntraRequest.ts'', emptyCompteTransfert)])
     = Some \<lparr> models = [(''CompteTransfertIntraRequest.ts'', repairedCompteTransfert)],
              fixedCount = 1,
              writes = [(''CompteTransfertIntraRequest.ts'', repairedCompteTransfert)] \<rparr>
   \<and> fixEmptyTypes (Some [(''CompteTransfertIntraRequest.ts'', repairedCompteTransfert)])
     = Some \<lparr> models = [(''CompteTransfertIntraRequest.ts'', repairedCompteTransfert)],
              fixedCount = 0, writes = [] \<rparr>
   \<and> exec repairedCompteTransfert 0 = None
   \<and> map_of emptyTypeFixes ''CompteTransfertIntraRequest''
     = Some (objectType
         [(''txId'', False, ''string''), (''montant'', False, ''number''),
          (''motif'', True, ''string''), (''payeurNumero'', True, ''string''),
          (''payeNumero'', True, ''string''), (''payeurAlias'', True, ''string''),
          (''payeAlias'', True, ''string'')])"
  by (simp add: fixEmptyTypes_def endsWith_ts fixFile_empty fixFile_repaired exec_repaired_0)
    (simp add: emptyTypeFixes_def objectType_def)

subsection \<open>Files without a known defect\<close>

lemma matchEmptyType_positive: "matchEmptyType s = Some (typeName, len) \<Longrightarrow> 0 < len"
  by (auto simp: matchEmptyType_def Let_def split: if_splits)

lemma search_Some:
  "search s = Some (k, typeName, len) \<Longrightarrow>
   k < length s \<and> matchEmptyType (drop k s) = Some (typeName, len)"
proof (induction s arbitrary: k)
  case Nil
  then show ?case by simp
next
  case (Cons c cs)
  show ?case
  proof (cases "matchEmptyType (c # cs)")
    case None
    with Cons.prems obtain j where j: "search cs = Some (j, typeName, len)" "k = Suc j"
      by auto
    with Cons.IH [OF j(1)] show ?thesis by simp
  next
    case (Some m)
    with Cons.prems show ?thesis by (cases m) auto
  qed
qed

lemma noKnownEmptyType_drop:
  "noKnownEmptyType s \<Longrightarrow> matchEmptyType (drop k s) = Some (typeName, len) \<Longrightarrow>
   lookupFix typeName = None"
proof (induction s arbitrary: k)
  case Nil
  then show ?case by (simp add: matchEmptyType_def)
next
  case (Cons c cs)
  show ?case
  proof (cases k)
    case 0
    with Cons.prems show ?thesis by simp
  next
    case (Suc j)
    with Cons.prems Cons.IH [of j] show ?thesis by simp
  qed
qed

lemma exec_Some:
  assumes "exec content i = Some (i', typeName)"
  shows "i < i'" and "i < length content"
    and "\<exists>k len. matchEmptyType (drop k content) = Some (typeName, len)"
proof -
  from assms obtain k len where s: "search (drop i content) = Some (k, typeName, len)"
    and i': "i' = i + k + len" and le: "i \<le> length content"
    by (auto simp: exec_def split: if_splits)
  note m = search_Some [OF s]
  from m have "0 < len" by (auto dest: matchEmptyType_positive)
  then show "i < i'" by (simp add: i')
  from m have "k < length content - i" by simp
  then show "i < length content" by arith
  from m show "\<exists>k len. matchEmptyType (drop k content) = Some (typeName, len)"
    by (auto simp: add.commute)
qed

lemma fixLoop_unfixable:
  assumes "noKnownEmptyType content"
  shows "fixLoop content i n m = Some (content, n, m)"
proof (induction "length content - i" arbitrary: i rule: less_induct)
  case less
  show ?case
  proof (cases "exec content i")
    case None
    then show ?thesis by (rule fixLoop_done)
  next
    case (Some r)
    obtain i' typeName where r: "r = (i', typeName)" by (cases r)
    note e = exec_Some [OF Some [unfolded r]]
    from e(3) have "lookupFix typeName = None"
      using assms noKnownEmptyType_drop by blast
    then have "fixLoop content i n m = fixLoop content i' n m"
      using Some r by (intro fixLoop_skip) simp_all
    also have "\<dots> = Some (content, n, m)"
      using e(1,2) by (intro less) simp
    finally show ?thesis .
  qed
qed

text \<open>
  A model file in which the lookup in the table yields nothing for the identifier of
  every empty type alias, and which matches no other rule, gets zero fixes and is not
  written: its content stays what it was. The file whose content is
  \<open>export type SomeUnknownType = ;\<close> is one.
\<close>

lemma unfixable_file_untouched:
  assumes "endsWith file ''.ts''"
    and "noKnownEmptyType content"
    and "\<not> hasRemise content"
    and "\<not> includesText content ''remise: ;''"
  shows "fixFile content = Some (content, 0, False)"
    and "fixEmptyTypes (Some [(file, content)])
        = Some \<lparr> models = [(file, content)], fixedCount = 0, writes = [] \<rparr>"
proof -
  show "fixFile content = Some (content, 0, False)"
    using assms
    by (simp add: fixFile_def fixLoop_unfixable fixRemise_def fixRemiseDefinition_def)
  then show "fixEmptyTypes (Some [(file, content)])
        = Some \<lparr> models = [(file, content)], fixedCount = 0, writes = [] \<rparr>"
    using assms(1) by (simp add: fixEmptyTypes_def)
qed

lemma some_unknown_type_untouched:
  "fixEmptyTypes (Some [(''SomeUnknownType.ts'', ''export type SomeUnknownType = ;'')])
     = Some \<lparr> models = [(''SomeUnknownType.ts'', ''export type SomeUnknownType = ;'')],
              fixedCount = 0, writes = [] \<rparr>"
proof (rule unfixable_file_untouched(2))
  show "endsWith ''SomeUnknownType.ts'' ''.ts''"
    by (simp add: endsWith_def)
  show "noKnownEmptyType ''export type SomeUnknownType = ;''"
    by (simp add: eval_patch)
  show "\<not> hasRemise ''export type SomeUnknownType = ;''"
    by (simp add: eval_patch)
  show "\<not> includesText ''export type SomeUnknownType = ;'' ''remise: ;''"
    by simp
qed

text \<open>
  C9. The property fails on the code for the model file with the two lines
  \<open>export type SomeUnknownType = ;\<close> and \<open>export type constructor = ;\<close>. Neither
  identifier is a key of the correction table and no other rule matches the file, but
  \<open>emptyTypeFixes['constructor']\<close> finds the \<open>constructor\<close> that the table inherits from
  \<open>Object.prototype\<close>, which is truthy: the patcher replaces the second alias by the
  text of that function, counts one fix and writes the file.
\<close>

theorem inherited_name_rewritten:
  "map_of emptyTypeFixes ''SomeUnknownType'' = None
   \<and> map_of emptyTypeFixes ''constructor'' = None
   \<and> \<not> hasRemise ''export type SomeUnknownType = ;\<newline>export type constructor = ;\<newline>''
   \<and> \<not> includesText ''export type SomeUnknownType = ;\<newline>export type constructor = ;\<newline>''
         ''remise: ;''
   \<and> fixEmptyTypes (Some [(''Models.ts'',
         ''export type SomeUnknownType = ;\<newline>export type constructor = ;\<newline>'')])
     = Some \<lparr> models = [(''Models.ts'',
                  ''export type SomeUnknownType = ;\<newline>export type constructor = function Object() { [native code] };\<newline>'')],
              fixedCount = 1,
              writes = [(''Models.ts'',
                  ''export type SomeUnknownType = ;\<newline>export type constructor = function Object() { [native code] };\<newline>'')] \<rparr>"
proof -
  let ?c = "''export type SomeUnknownType = ;\<newline>export type constructor = ;\<newline>''"
  let ?c' = "''export type SomeUnknownType = ;\<newline>export type constructor = function Object() { [native code] };\<newline>''"
  have keys: "map_of emptyTypeFixes ''SomeUnknownType'' = None"
    "map_of emptyTypeFixes ''constructor'' = None"
    by (simp_all add: emptyTypeFixes_def)
  have r: "\<not> hasRemise ?c" "\<not> hasRemise ?c'"
    by (simp_all add: eval_patch)
  have i: "\<not> includesText ?c ''remise: ;''" "\<not> includesText ?c' ''remise: ;''"
    by simp_all
  have e1: "exec ?c 0 = Some (31, ''SomeUnknownType'')"
    by (simp add: eval_patch)
  have l1: "lookupFix ''SomeUnknownType'' = None"
    by (simp add: eval_patch)
  have e2: "exec ?c 31 = Some (59, ''constructor'')"
    by (simp add: eval_patch)
  have l2: "lookupFix ''constructor'' = Some ''function Object() { [native code] }''"
    by (simp add: eval_patch)
  have rp: "replaceFirst (''export type '' @ ''constructor'' @ '' = ;'')
      (''export type '' @ ''constructor'' @ '' = '' @ ''function Object() { [native code] }'' @ '';'')
      ?c = ?c'"
    by simp
  have e3: "exec ?c' 59 = None"
    by (simp add: eval_patch)
  have "fixLoop ?c 0 0 False = fixLoop ?c 31 0 False"
    by (rule fixLoop_skip [OF e1 l1])
  also have "\<dots> = fixLoop ?c' 59 (Suc 0) True"
    unfolding rp [symmetric] by (rule fixLoop_fix [OF e2 l2])
  also have "\<dots> = Some (?c', Suc 0, True)"
    by (rule fixLoop_done [OF e3])
  finally have "fixFile ?c = Some (?c', 1, True)"
    using r(2) i(2) by (simp add: fixFile_def fixRemise_def fixRemiseDefinition_def)
  then have "fixEmptyTypes (Some [(''Models.ts'', ?c)])
     = Some \<lparr> models = [(''Models.ts'', ?c')], fixedCount = 1, writes = [(''Models.ts'', ?c')] \<rparr>"
    by (simp add: fixEmptyTypes_def endsWith_def)
  with keys r(1) i(1) show ?thesis
    by blast
qed

subsection \<open>Inline remise fields\<close>

lemma not_isSpace_r: "\<not> isSpace CHR ''r''" and not_isSpace_semicolon: "\<not> isSpace CHR '';''"
  by (simp_all add: isSpace_def)

lemma takeWhile_run:
  "list_all P xs \<Longrightarrow> \<not> P y \<Longrightarrow> takeWhile P (xs @ y # ys) = xs"
  by (induction xs) simp_all

lemma dropWhile_run:
  "list_all P xs \<Longrightarrow> \<not> P y \<Longrightarrow> dropWhile P (xs @ y # ys) = y # ys"
  by (induction xs) simp_all

lemma matchRemise_occurrence:
  assumes "ws \<noteq> []" "list_all isSpace ws" "q = [] \<or> q = ''?''" "list_all isSpace ws2"
  shows "matchRemise (ws @ ''remise'' @ q @ '':'' @ ws2 @ '';'' @ post) = Some (ws, post)"
proof -
  let ?s = "ws @ ''remise'' @ q @ '':'' @ ws2 @ '';'' @ post"
  have t: "takeWhile isSpace ?s = ws"
    using takeWhile_run [OF assms(2) not_isSpace_r] by simp
  have d: "dropWhile isSpace ?s = ''remise'' @ q @ '':'' @ ws2 @ '';'' @ post"
    using dropWhile_run [OF assms(2) not_isSpace_r] by simp
  have w: "dropWhile isSpace (ws2 @ '';'' @ post) = '';'' @ post"
    using dropWhile_run [OF assms(4) not_isSpace_semicolon] by simp
  show ?thesis
    unfolding matchRemise_def Let_def t d
    using assms(1,3) w by auto
qed

lemma hasRemise_prefix: "matchRemise s \<noteq> None \<Longrightarrow> s \<noteq> [] \<Longrightarrow> hasRemise (pre @ s)"
proof (induction pre)
  case Nil
  then show ?case by (cases s) auto
next
  case (Cons c cs)
  then show ?case by simp
qed

lemma replaceRemise_prefix:
  "unmatchedPrefix pre rest \<Longrightarrow> replaceRemise (pre @ rest) = pre @ replaceRemise rest"
  by (induction pre) simp_all

lemma replaceRemise_match:
  "matchRemise s = Some (ws, rest) \<Longrightarrow>
   replaceRemise s = ws @ ''remise?: '' @ remiseFix @ replaceRemise rest"
  by (cases s) (simp_all add: matchRemise_def)

text \<open>
  C8, as amended. In a model file, an occurrence of \<open>remise:\<close> or \<open>remise?:\<close> that has
  at least one whitespace character before it and is followed by optional whitespace
  and \<open>;\<close> is rewritten by the second rule to the whitespace before it, \<open>remise?: \<close>
  and the table entry of \<open>remise\<close> (the optional fields \<open>montant: number\<close> and
  \<open>taux: number\<close>), whether the field was optional or not. The replacement leaves the
  text before the leftmost occurrence as it is and goes on in the same way with the
  text after the occurrence, so it reaches every such occurrence, and the rule adds
  exactly one to the count of fixes of the file, however many occurrences follow.
  For the file this gives: when the first rule leaves the content
  \<open>pre @ occurrence @ post\<close> with the count \<open>n\<close>, the file ends as the third rule leaves
  the rewritten content with the count \<open>n + 1\<close>, which is the rewritten content itself
  with the count \<open>n + 1\<close> when the text \<open>remise: ;\<close> does not occur in it.
\<close>

theorem inline_remise_repair:
  assumes "ws \<noteq> []" "list_all isSpace ws"
    and "q = [] \<or> q = ''?''"
    and "list_all isSpace ws2"
    and "unmatchedPrefix pre (ws @ ''remise'' @ q @ '':'' @ ws2 @ '';'' @ post)"
  shows "fixRemise (pre @ ws @ ''remise'' @ q @ '':'' @ ws2 @ '';'' @ post, n, m)
          = (pre @ ws @ ''remise?: '' @ remiseFix @ replaceRemise post, Suc n, True)
    \<and> replaceRemise (pre @ ws @ ''remise'' @ q @ '':'' @ ws2 @ '';'' @ post)
          = pre @ ws @ ''remise?: '' @ remiseFix @ replaceRemise post
    \<and> (fixLoop content 0 0 False
          = Some (pre @ ws @ ''remise'' @ q @ '':'' @ ws2 @ '';'' @ post, n, m) \<longrightarrow>
        fixFile content
          = Some (fixRemiseDefinition
                    (pre @ ws @ ''remise?: '' @ remiseFix @ replaceRemise post, Suc n, True)))
    \<and> (fixLoop content 0 0 False
          = Some (pre @ ws @ ''remise'' @ q @ '':'' @ ws2 @ '';'' @ post, n, m)
        \<and> \<not> includesText (pre @ ws @ ''remise?: '' @ remiseFix @ replaceRemise post) ''remise: ;''
        \<longrightarrow>
        fixFile content
          = Some (pre @ ws @ ''remise?: '' @ remiseFix @ replaceRemise post, Suc n, True))
    \<and> map_of emptyTypeFixes ''remise'' = Some remiseFix
    \<and> remiseFix = objectType [(''montant'', True, ''number''), (''taux'', True, ''number'')]"
proof -
  let ?occ = "ws @ ''remise'' @ q @ '':'' @ ws2 @ '';'' @ post"
  let ?new = "pre @ ws @ ''remise?: '' @ remiseFix @ replaceRemise post"
  have mt: "matchRemise ?occ = Some (ws, post)"
    using assms(1-4) by (rule matchRemise_occurrence)
  have "?occ \<noteq> []"
    using assms(1) by simp
  with mt have "hasRemise (pre @ ?occ)"
    by (intro hasRemise_prefix) simp_all
  moreover have step: "replaceRemise (pre @ ?occ) = ?new"
    using replaceRemise_prefix [OF assms(5)] replaceRemise_match [OF mt] by simp
  ultimately have rule2: "fixRemise (pre @ ?occ, n, m) = (?new, Suc n, True)"
    by (simp add: fixRemise_def)
  have whole: "fixFile content = Some (fixRemiseDefinition (?new, Suc n, True))"
    if "fixLoop content 0 0 False = Some (pre @ ?occ, n, m)"
    using that rule2 by (simp add: fixFile_def)
  have clean: "fixFile content = Some (?new, Suc n, True)"
    if "fixLoop content 0 0 False = Some (pre @ ?occ, n, m)"
      "\<not> includesText ?new ''remise: ;''"
    using whole [OF that(1)] that(2) by (simp add: fixRemiseDefinition_def)
  have "map_of emptyTypeFixes ''remise'' = Some remiseFix"
    by (simp add: emptyTypeFixes_def remiseFix_def)
  moreover have "remiseFix = objectType [(''montant'', True, ''number''), (''taux'', True, ''number'')]"
    by (simp add: remiseFix_def objectType_def)
  ultimately show ?thesis
    using rule2 step whole clean by blast
qed

theorem inline_remise_repair_witness:
  "unmatchedPrefix ''{'' (''\<newline>  '' @ ''remise'' @ [] @ '':'' @ '' '' @ '';'' @ ''\<newline>  remise?:;\<newline>}'')
   \<and> fixLoop ''{\<newline>  remise: ;\<newline>  remise?:;\<newline>}'' 0 0 False
     = Some (''{\<newline>  remise: ;\<newline>  remise?:;\<newline>}'', 0, False)
   \<and> fixRemise (''{\<newline>  remise: ;\<newline>  remise?:;\<newline>}'', 0, False)
     = (''{\<newline>  remise?: '' @ remiseFix @ ''\<newline>  remise?: '' @ remiseFix @ ''\<newline>}'', 1, True)
   \<and> fixFile ''{\<newline>  remise: ;\<newline>  remise?:;\<newline>}''
     = Some (''{\<newline>  remise?: '' @ remiseFix @ ''\<newline>  remise?: '' @ remiseFix @ ''\<newline>}'', 1, True)"
proof -
  let ?c = "''{\<newline>  remise: ;\<newline>  remise?:;\<newline>}''"
  let ?post = "''\<newline>  remise?:;\<newline>}''"
  let ?old = "''{'' @ ''\<newline>  '' @ ''remise'' @ [] @ '':'' @ '' '' @ '';'' @ ?post"
  let ?new = "''{'' @ ''\<newline>  '' @ ''remise?: '' @ remiseFix @ replaceRemise ?post"
  let ?result = "''{\<newline>  remise?: '' @ remiseFix @ ''\<newline>  remise?: '' @ remiseFix @ ''\<newline>}''"
  have ws: "''\<newline>  '' \<noteq> []" "list_all isSpace ''\<newline>  ''" "list_all isSpace '' ''"
    by (simp_all add: isSpace_def)
  have q: "([]::string) = [] \<or> [] = ''?''"
    by simp
  have pre: "unmatchedPrefix ''{'' (''\<newline>  '' @ ''remise'' @ [] @ '':'' @ '' '' @ '';'' @ ?post)"
    by (simp add: eval_patch)
  have post: "replaceRemise ?post = ''\<newline>  remise?: '' @ remiseFix @ ''\<newline>}''"
    by (simp add: eval_patch)
  have old: "?old = ?c"
    by simp
  have new: "?new = ?result"
    by (simp add: post del: replaceRemise.simps)
  have "exec ?c 0 = None"
    by (simp add: eval_patch)
  then have loop: "fixLoop ?c 0 0 False = Some (?c, 0, False)"
    by (rule fixLoop_done)
  have none: "\<not> includesText ?result ''remise: ;''"
    by (simp add: remiseFix_def)
  have inst: "fixRemise (?old, 0, False) = (?new, Suc 0, True)
      \<and> (fixLoop ?c 0 0 False = Some (?old, 0, False) \<and> \<not> includesText ?new ''remise: ;''
          \<longrightarrow> fixFile ?c = Some (?new, Suc 0, True))"
    using inline_remise_repair [OF ws(1,2) q ws(3) pre, of 0 False ?c] by blast
  have rule2: "fixRemise (?c, 0, False) = (?result, 1, True)"
    using inst unfolding old new by simp
  have "fixFile ?c = Some (?result, 1, True)"
    using inst loop none unfolding old new by simp
  with pre loop rule2 show ?thesis by blast
qed

text \<open>
  The claim as stated fails on occurrences with no whitespace before them. In the file
  \<open>{remise: ;}\<close> the occurrence is rewritten by the third rule, to the required form
  \<open>remise: \<close> and the table entry; the file \<open>{remise?: ;}\<close> is left as it is, with no
  fix; and in a file with \<open>{remise: ;\<close> on the first line and \<open>remise?: ;}\<close> on the
  second the second rule rewrites the second occurrence, the third rule the first,
  and the count of fixes of the file is two.
\<close>

theorem inline_remise_repair_counterexample:
  "fixFile ''{remise: ;}'' = Some (''{remise: '' @ remiseFix @ ''}'', 1, True)
   \<and> fixFile ''{remise?: ;}'' = Some (''{remise?: ;}'', 0, False)
   \<and> fixFile ''{remise: ;\<newline>  remise?: ;}''
     = Some (''{remise: '' @ remiseFix @ ''\<newline>  remise?: '' @ remiseFix @ ''}'', 2, True)"
proof -
  have loop: "fixLoop content 0 0 False = Some (content, 0, False)"
    if "exec content 0 = None" for content
    using that by (rule fixLoop_done)
  have e: "exec ''{remise: ;}'' 0 = None" "exec ''{remise?: ;}'' 0 = None"
    "exec ''{remise: ;\<newline>  remise?: ;}'' 0 = None"
    by (simp_all add: eval_patch)
  have "fixFile ''{remise: ;}'' = Some (''{remise: '' @ remiseFix @ ''}'', 1, True)"
    by (simp add: fixFile_def loop [OF e(1)] fixRemise_def fixRemiseDefinition_def eval_patch)
  moreover have "fixFile ''{remise?: ;}'' = Some (''{remise?: ;}'', 0, False)"
    by (simp add: fixFile_def loop [OF e(2)] fixRemise_def fixRemiseDefinition_def eval_patch)
  moreover have "fixFile ''{remise: ;\<newline>  remise?: ;}''
     = Some (''{remise: '' @ remiseFix @ ''\<newline>  remise?: '' @ remiseFix @ ''}'', 2, True)"
    by (simp add: fixFile_def loop [OF e(3)] fixRemise_def fixRemiseDefinition_def eval_patch
        remiseFix_def)
  ultimately show ?thesis by blast
qed
section \<open>Properties of the query builder\<close>

text \<open>
  C7. The chain \<open>filter('montant','gte',10000)\<close>, \<open>filter('statut','eq','IRREVOCABLE')\<close>,
  \<open>sort('dateCreation','desc')\<close>, \<open>page(1)\<close>, \<open>size(50)\<close> on a new builder builds the
  mapping with the entries \<open>page: "1"\<close>, \<open>size: 50\<close>, \<open>"montant[gte]": "10000"\<close>,
  \<open>statut: "IRREVOCABLE"\<close> and \<open>sort: "-dateCreation"\<close>, in this order and with no other
  entry: the \<open>eq\<close> filter is a bare entry, the \<open>gte\<close> filter is bracketed with its value
  as a string, the page is a string, the size a number, the descending sort one entry
  prefixed with \<open>-\<close>.
\<close>

theorem build_contract_example:
  "map_sum id build
     (andThen (andThen (andThen (andThen
        (filter_qb ''montant'' (AStr ''gte'') (Some (ANum 10000)) new_QueryBuilder)
        (filter_qb ''statut'' (AStr ''eq'') (Some (AStr ''IRREVOCABLE''))))
        (sort_qb ''dateCreation'' ''desc''))
        (page (PNum 1)))
        (size_qb 50))
   = Inr [(''page'', PStr ''1''), (''size'', PNum 50), (''montant[gte]'', PStr ''10000''),
          (''statut'', PStr ''IRREVOCABLE''), (''sort'', PStr ''-dateCreation'')]"
  by (simp add: andThen_def filter_qb_def sort_qb_def page_def size_qb_def build_def
      addFilter_def new_QueryBuilder_def showInt_def showNat.simps)

text \<open>
  C10. A call \<open>filter(field, x)\<close> with two arguments throws
  \<open>Error('Filter operator requires a value')\<close> when \<open>x\<close> is a string that is one of the
  twelve operator names, and otherwise stores \<open>x\<close> as the value of an \<open>eq\<close> filter on
  \<open>field\<close>. So the filter a two-argument call stores never has an operator name as its
  value.
\<close>

theorem filter_two_arguments:
  "filter_qb field x None qb =
     (if x \<in> AStr ` {''eq'', ''ne'', ''gt'', ''gte'', ''lt'', ''lte'', ''in'', ''contains'',
                      ''notContains'', ''beginsWith'', ''endsWith'', ''exists''}
      then Inl (Error ''Filter operator requires a value'')
      else Inr (qb\<lparr>filters := AList.update field
                  \<lparr>fo_operator = AStr ''eq'', fo_value = x\<rparr> (filters qb)\<rparr>))
   \<and> (\<forall>qb'. filter_qb field x None qb = Inr qb' \<longrightarrow>
         map_of (filters qb') field = Some \<lparr>fo_operator = AStr ''eq'', fo_value = x\<rparr>
         \<and> (\<forall>s. x = AStr s \<longrightarrow> \<not> isOperator s))"
  by (cases x) (auto simp: filter_qb_def isOperator_def update_conv')

theorem filter_two_arguments_witness:
  "filter_qb ''statut'' (AStr ''gte'') None new_QueryBuilder
     = Inl (Error ''Filter operator requires a value'')
   \<and> filter_qb ''statut'' (AStr ''IRREVOCABLE'') None new_QueryBuilder
     = Inr (new_QueryBuilder\<lparr>filters :=
         [(''statut'', \<lparr>fo_operator = AStr ''eq'', fo_value = AStr ''IRREVOCABLE''\<rparr>)]\<rparr>)
   \<and> map_of (filters (new_QueryBuilder\<lparr>filters :=
         [(''statut'', \<lparr>fo_operator = AStr ''eq'', fo_value = AStr ''IRREVOCABLE''\<rparr>)]\<rparr>)) ''statut''
     = Some \<lparr>fo_operator = AStr ''eq'', fo_value = AStr ''IRREVOCABLE''\<rparr>
   \<and> \<not> isOperator ''IRREVOCABLE''"
  using filter_two_arguments [of "''statut''" "AStr ''gte''" new_QueryBuilder]
    filter_two_arguments [of "''statut''" "AStr ''IRREVOCABLE''" new_QueryBuilder]
  by (simp add: new_QueryBuilder_def)

end
